theory Spec2Isabelle
  imports Main
begin

section \<open>Library functions used by the program\<close>

text \<open>
  The program is a single Go file, \<^verbatim>\<open>resize-images.go\<close>. It calls a handful of
  functions of Go's standard library on strings; each is modelled here on \<open>string\<close>
  (a list of bytes), following the library's documented behaviour on Unix.
\<close>

subsection \<open>strings.FieldsFunc\<close>

text \<open>
  \<^verbatim>\<open>strings.FieldsFunc(s, f)\<close> splits \<open>s\<close> at each run of characters satisfying \<open>f\<close>
  and returns the pieces between the runs; no piece is empty. The library walks the
  string once, remembering where the current field started; \<open>cur\<close> is the field read
  so far, reversed.
\<close>

fun fields_from :: "(char \<Rightarrow> bool) \<Rightarrow> string \<Rightarrow> string \<Rightarrow> string list" where
  "fields_from f cur [] = (if cur = [] then [] else [rev cur])"
| "fields_from f cur (c # cs) =
     (if f c then (if cur = [] then fields_from f [] cs else rev cur # fields_from f [] cs)
      else fields_from f (c # cur) cs)"

definition FieldsFunc :: "string \<Rightarrow> (char \<Rightarrow> bool) \<Rightarrow> string list" where
  "FieldsFunc s f = fields_from f [] s"

subsection \<open>strconv.ParseInt\<close>

datatype num_error = ErrSyntax | ErrRange

text \<open>The width of Go's \<^verbatim>\<open>int\<close> (\<^verbatim>\<open>strconv.IntSize\<close>) on a 64-bit platform.\<close>

definition IntSize :: nat where
  "IntSize = 64"

definition maxUint64 :: nat where
  "maxUint64 = 2 ^ 64 - 1"

definition digit_val :: "char \<Rightarrow> nat option" where
  "digit_val c =
     (let k = (of_char c :: nat) in if 48 \<le> k \<and> k \<le> 57 then Some (k - 48) else None)"

text \<open>
  The digit loop of \<^verbatim>\<open>strconv.ParseUint(s, 10, 64)\<close>. \<open>n\<close> is the unsigned 64-bit
  accumulator; the three tests are the library's: a byte that is no decimal digit is a
  syntax error, \<open>n \<ge> cutoff\<close> means \<open>n * 10\<close> overflows, and \<open>n1 < n\<close> means that adding
  the digit wrapped around.
\<close>

fun parse_digits :: "nat \<Rightarrow> string \<Rightarrow> num_error + nat" where
  "parse_digits n [] = Inr n"
| "parse_digits n (c # cs) =
     (case digit_val c of
        None \<Rightarrow> Inl ErrSyntax
      | Some d \<Rightarrow>
          if n \<ge> maxUint64 div 10 + 1 then Inl ErrRange
          else let n10 = n * 10; n1 = (n10 + d) mod 2 ^ 64
               in if n1 < n10 \<or> n1 > maxUint64 then Inl ErrRange
                  else parse_digits n1 cs)"

definition ParseUint :: "string \<Rightarrow> num_error + nat" where
  "ParseUint s = (if s = [] then Inl ErrSyntax else parse_digits 0 s)"

text \<open>
  \<^verbatim>\<open>strconv.ParseInt(s, 10, 0)\<close>: an optional sign, then \<^verbatim>\<open>ParseUint\<close>, then the range
  check against \<open>2 ^ (IntSize - 1)\<close>. A range error of \<^verbatim>\<open>ParseUint\<close> leaves the
  largest unsigned value in \<open>un\<close>, which the range check then rejects.
\<close>

definition ParseInt :: "string \<Rightarrow> num_error + int" where
  "ParseInt s =
     (if s = [] then Inl ErrSyntax
      else
        let neg = (hd s = CHR ''-'');
            s1 = (if hd s = CHR ''+'' \<or> hd s = CHR ''-'' then tl s else s)
        in case ParseUint s1 of
             Inl ErrSyntax \<Rightarrow> Inl ErrSyntax
           | Inl ErrRange \<Rightarrow> Inl ErrRange
           | Inr un \<Rightarrow>
               let cutoff = 2 ^ (IntSize - 1)
               in if \<not> neg \<and> un \<ge> cutoff then Inl ErrRange
                  else if neg \<and> un > cutoff then Inl ErrRange
                  else Inr (if neg then - int un else int un))"

section \<open>Parsing the size list\<close>

text \<open>
  \<^verbatim>\<open>parseSizes\<close> returns either an error or the list of sizes. The three errors are
  the three \<^verbatim>\<open>fmt.Errorf\<close> calls of the source; the first two carry the whole input
  string, the third the offending number.
\<close>

datatype size_error = NotValidSize string | SizeOutOfRange string | SizeLessThanZero int

definition isComma :: "char \<Rightarrow> bool" where
  "isComma r = (r = CHR '','')"

text \<open>The body of the \<^verbatim>\<open>for\<close> loop: \<open>sizes\<close> is the slice built so far.\<close>

fun parseSizes_loop :: "string \<Rightarrow> int list \<Rightarrow> string list \<Rightarrow> size_error + int list" where
  "parseSizes_loop s sizes [] = Inr sizes"
| "parseSizes_loop s sizes (t # ts) =
     (case ParseInt t of
        Inl ErrSyntax \<Rightarrow> Inl (NotValidSize s)
      | Inl ErrRange \<Rightarrow> Inl (SizeOutOfRange s)
      | Inr i \<Rightarrow>
          if i < 0 then Inl (SizeLessThanZero i)
          else parseSizes_loop s (sizes @ [i]) ts)"

definition parseSizes :: "string \<Rightarrow> size_error + int list" where
  "parseSizes s = parseSizes_loop s [] (FieldsFunc s isComma)"

section \<open>File names\<close>

subsection \<open>filepath.Ext, filepath.Base, strings.Replace\<close>

text \<open>
  \<^verbatim>\<open>filepath.Ext(path)\<close> walks back from the end of \<open>path\<close> until it meets a dot (the
  extension starts there) or a slash (there is none). \<open>acc\<close> is the part already
  passed.
\<close>

fun ext_scan :: "string \<Rightarrow> string \<Rightarrow> string" where
  "ext_scan acc [] = []"
| "ext_scan acc (c # cs) =
     (if c = CHR ''/'' then []
      else if c = CHR ''.'' then c # acc
      else ext_scan (c # acc) cs)"

definition Ext :: "string \<Rightarrow> string" where
  "Ext path = ext_scan [] (rev path)"

text \<open>
  \<^verbatim>\<open>filepath.Base(path)\<close>: the empty path gives \<^verbatim>\<open>"."\<close>; trailing slashes are
  stripped; what follows the last slash is the result, or \<^verbatim>\<open>"/"\<close> if nothing is left.
\<close>

definition Base :: "string \<Rightarrow> string" where
  "Base path =
     (if path = [] then ''.''
      else
        let p1 = dropWhile (\<lambda>c. c = CHR ''/'') (rev path);
            p2 = rev (takeWhile (\<lambda>c. c \<noteq> CHR ''/'') p1)
        in if p2 = [] then ''/'' else p2)"

text \<open>
  \<^verbatim>\<open>strings.Replace(s, old, new, -1)\<close> replaces every non-overlapping occurrence of
  \<open>old\<close>, found from left to right. With \<open>old = new\<close> the string is returned as it is;
  this covers the empty extension, since the program replaces by the empty string. For
  an empty \<open>old\<close> and a non-empty \<open>new\<close> the library inserts \<open>new\<close> before every
  character and at the end.
\<close>

fun replace_from :: "string \<Rightarrow> string \<Rightarrow> string \<Rightarrow> string" where
  "replace_from old new [] = []"
| "replace_from old new (c # cs) =
     (if old \<noteq> [] \<and> take (length old) (c # cs) = old
      then new @ replace_from old new (drop (length old - 1) cs)
      else c # replace_from old new cs)"

definition Replace :: "string \<Rightarrow> string \<Rightarrow> string \<Rightarrow> string" where
  "Replace s old new =
     (if old = new then s
      else if old = [] then concat (map (\<lambda>c. new @ [c]) s) @ new
      else replace_from old new s)"

subsection \<open>fmt.Sprintf\<close>

definition digit_char :: "nat \<Rightarrow> char" where
  "digit_char d = ''0123456789'' ! d"

fun digits :: "nat \<Rightarrow> string" where
  "digits n =
     (if n < 10 then [digit_char n]
      else digits (n div 10) @ [digit_char (n mod 10)])"

declare digits.simps [simp del]

text \<open>The verb \<^verbatim>\<open>%d\<close> on an \<^verbatim>\<open>int\<close>.\<close>

definition format_d :: "int \<Rightarrow> string" where
  "format_d i = (if i < 0 then CHR ''-'' # digits (nat (- i)) else digits (nat i))"

text \<open>\<^verbatim>\<open>fmt.Sprintf("%s_%d.jpg", name, size)\<close>\<close>

definition Sprintf_name :: "string \<Rightarrow> int \<Rightarrow> string" where
  "Sprintf_name name sz = name @ ''_'' @ format_d sz @ ''.jpg''"

subsection \<open>filepath.Clean and filepath.Join\<close>

text \<open>
  \<^verbatim>\<open>filepath.Clean\<close> reads the path from left to right and writes the cleaned path
  into a buffer \<open>out\<close>. \<open>dotdot\<close> is the length of the prefix of \<open>out\<close> that a
  \<^verbatim>\<open>".."\<close> element must not remove. \<open>back_to\<close> is the inner loop that moves the write
  index back to the previous slash.
\<close>

fun back_to :: "string \<Rightarrow> nat \<Rightarrow> nat \<Rightarrow> nat" where
  "back_to out dotdot 0 = 0"
| "back_to out dotdot (Suc w) =
     (if Suc w > dotdot \<and> out ! Suc w \<noteq> CHR ''/'' then back_to out dotdot w else Suc w)"

definition is_sep_or_end :: "string \<Rightarrow> bool" where
  "is_sep_or_end s = (s = [] \<or> hd s = CHR ''/'')"

function clean_loop :: "bool \<Rightarrow> string \<Rightarrow> nat \<Rightarrow> string \<Rightarrow> string" where
  "clean_loop rooted out dotdot [] = out"
| "clean_loop rooted out dotdot (c # cs) =
     (if c = CHR ''/'' then clean_loop rooted out dotdot cs
      else if c = CHR ''.'' \<and> is_sep_or_end cs then clean_loop rooted out dotdot cs
      else if c = CHR ''.'' \<and> cs \<noteq> [] \<and> hd cs = CHR ''.'' \<and> is_sep_or_end (tl cs) then
        (if length out > dotdot
         then clean_loop rooted (take (back_to out dotdot (length out - 1)) out) dotdot (tl cs)
         else if \<not> rooted
         then (let out' = (if out \<noteq> [] then out @ ''/'' else out) @ ''..''
               in clean_loop rooted out' (length out') (tl cs))
         else clean_loop rooted out dotdot (tl cs))
      else
        (let out' = (if rooted \<and> length out \<noteq> 1 \<or> \<not> rooted \<and> length out \<noteq> 0
                     then out @ ''/'' else out)
         in clean_loop rooted (out' @ takeWhile (\<lambda>x. x \<noteq> CHR ''/'') (c # cs)) dotdot
              (dropWhile (\<lambda>x. x \<noteq> CHR ''/'') (c # cs))))"
  by pat_completeness auto
termination
proof (relation "measure (\<lambda>(rooted, out, dotdot, rest). length rest)", goal_cases)
  case 1 show ?case by simp
next
  case 2 show ?case by simp
next
  case 3 show ?case by simp
next
  case (4 rooted out dotdot c cs)
  then have "cs \<noteq> []" by blast
  then show ?case by (cases cs) simp_all
next
  case (5 rooted out dotdot c cs x)
  then have "cs \<noteq> []" by blast
  then show ?case by (cases cs) simp_all
next
  case (6 rooted out dotdot c cs)
  then have "cs \<noteq> []" by blast
  then show ?case by (cases cs) simp_all
next
  case (7 rooted out dotdot c cs x)
  have "length (dropWhile (\<lambda>x. x \<noteq> CHR ''/'') cs) \<le> length cs"
    by (rule length_dropWhile_le)
  with 7(1) show ?case by simp
qed

declare clean_loop.simps [simp del]

definition Clean :: "string \<Rightarrow> string" where
  "Clean path =
     (if path = [] then ''.''
      else
        let rooted = (hd path = CHR ''/'');
            out = clean_loop rooted (if rooted then ''/'' else []) (if rooted then 1 else 0)
                    (if rooted then tl path else path)
        in if out = [] then ''.'' else out)"

text \<open>
  \<^verbatim>\<open>filepath.Join(a, b)\<close>: the elements from the first non-empty one on are joined
  with slashes and cleaned; if all are empty the result is empty.
\<close>

definition Join :: "string \<Rightarrow> string \<Rightarrow> string" where
  "Join a b =
     (if a \<noteq> [] then Clean (a @ ''/'' @ b)
      else if b \<noteq> [] then Clean b
      else [])"

subsection \<open>The names the program derives\<close>

text \<open>
  The second field of the \<^verbatim>\<open>imageData\<close> that \<^verbatim>\<open>readImage\<close> sends:
  \<^verbatim>\<open>strings.Replace(filepath.Base(path), filepath.Ext(path), "", -1)\<close>.
\<close>

definition imageName :: "string \<Rightarrow> string" where
  "imageName path = Replace (Base path) (Ext path) []"

text \<open>
  The path \<^verbatim>\<open>resizeImage\<close> creates:
  \<^verbatim>\<open>filepath.Join(basePath, fmt.Sprintf("%s_%d.jpg", img.name, size))\<close>.
\<close>

definition resizePath :: "string \<Rightarrow> string \<Rightarrow> int \<Rightarrow> string" where
  "resizePath basePath name sz = Join basePath (Sprintf_name name sz)"

section \<open>The environment\<close>

text \<open>
  What the program learns from the operating system is taken as a parameter: for each
  call, the answer the system gives in this run. \<open>decode\<close> stands for \<^verbatim>\<open>os.Open\<close> followed
  by \<^verbatim>\<open>jpeg.Decode\<close>, and is \<open>None\<close> when either fails; the type \<open>'img\<close> of decoded
  images is left open. \<open>readDirNames\<close> gives the sorted names of the entries of a
  directory, and \<open>None\<close> when the path is no directory or cannot be read.
\<close>

datatype stat_result = StatNotExist | StatFailed | StatIsDir | StatNotDir

datatype glob_error = ErrBadPattern

record 'img env =
  stat :: "string \<Rightarrow> stat_result"
  mkdirAll_ok :: "string \<Rightarrow> bool"
  lstat_ok :: "string \<Rightarrow> bool"
  readDirNames :: "string \<Rightarrow> string list option"
  globClasses :: "string \<Rightarrow> glob_error + string list"
  decode :: "string \<Rightarrow> 'img option"
  create_ok :: "string \<Rightarrow> bool"
  encode_ok :: "'img \<Rightarrow> int \<Rightarrow> bool"

section \<open>filepath.Glob\<close>

text \<open>
  \<^verbatim>\<open>filepath.Match\<close> on patterns made of literal characters, \<^verbatim>\<open>*\<close> (any sequence of
  characters other than the separator) and \<^verbatim>\<open>?\<close> (any single character other than the
  separator). Patterns with a character class or an escape are not interpreted here:
  \<open>Glob\<close> below asks the environment for them.
\<close>

fun Match :: "string \<Rightarrow> string \<Rightarrow> bool" where
  "Match [] n = (n = [])"
| "Match (p # ps) [] = (p = CHR ''*'' \<and> Match ps [])"
| "Match (p # ps) (c # cs) =
     (if p = CHR ''*'' then Match ps (c # cs) \<or> (c \<noteq> CHR ''/'' \<and> Match (p # ps) cs)
      else if p = CHR ''?'' then c \<noteq> CHR ''/'' \<and> Match ps cs
      else p = c \<and> Match ps cs)"

definition hasMeta :: "string \<Rightarrow> bool" where
  "hasMeta path = (\<exists>c \<in> set path. c = CHR ''*'' \<or> c = CHR ''?'' \<or> c = CHR ''['' \<or> c = CHR 0x5C)"

definition hasClass :: "string \<Rightarrow> bool" where
  "hasClass path = (\<exists>c \<in> set path. c = CHR ''['' \<or> c = CHR 0x5C)"

text \<open>\<^verbatim>\<open>filepath.Split\<close> cuts the path after its last slash.\<close>

definition Split :: "string \<Rightarrow> string \<times> string" where
  "Split path =
     (rev (dropWhile (\<lambda>c. c \<noteq> CHR ''/'') (rev path)),
      rev (takeWhile (\<lambda>c. c \<noteq> CHR ''/'') (rev path)))"

definition cleanGlobPath :: "string \<Rightarrow> string" where
  "cleanGlobPath path =
     (if path = [] then ''.''
      else if path = ''/'' then path
      else butlast path)"

text \<open>
  \<^verbatim>\<open>glob(dir, pattern, matches)\<close> appends to \<open>matches\<close> the entries of \<open>dir\<close> whose name
  matches; an unreadable directory adds nothing.
\<close>

definition glob :: "'img env \<Rightarrow> string \<Rightarrow> string \<Rightarrow> string list \<Rightarrow> string list" where
  "glob e dir pattern matches =
     (case readDirNames e dir of
        None \<Rightarrow> matches
      | Some names \<Rightarrow> matches @ map (Join dir) (filter (Match pattern) names))"

text \<open>
  \<^verbatim>\<open>filepath.Glob\<close>: a pattern without metacharacters names at most one file; otherwise
  the pattern is split into directory and last element, and if the directory has
  metacharacters of its own it is expanded first, by the same function.
\<close>

function Glob :: "'img env \<Rightarrow> string \<Rightarrow> glob_error + string list" where
  "Glob e pattern =
     (if hasClass pattern then globClasses e pattern
      else if \<not> hasMeta pattern then (if lstat_ok e pattern then Inr [pattern] else Inr [])
      else
        let dir = cleanGlobPath (fst (Split pattern)); file = snd (Split pattern)
        in if \<not> hasMeta dir then Inr (glob e dir file [])
           else if dir = pattern then Inl ErrBadPattern
           else case Glob e dir of
                  Inl err \<Rightarrow> Inl err
                | Inr m \<Rightarrow> Inr (foldl (\<lambda>matches d. glob e d file matches) [] m))"
  by pat_completeness auto
termination
proof (relation "measure (\<lambda>(e, pattern). length pattern)", goal_cases)
  case 1 show ?case by simp
next
  case (2 e pattern dir fl)
  have "length (dropWhile (\<lambda>c. c \<noteq> CHR ''/'') (rev pattern)) \<le> length (rev pattern)"
    by (rule length_dropWhile_le)
  then have le: "length (fst (Split pattern)) \<le> length pattern"
    by (simp add: Split_def)
  from 2 have "length dir < length (fst (Split pattern))"
    by (auto simp: cleanGlobPath_def hasMeta_def split: if_splits)
  with le show ?case by simp
qed

declare Glob.simps [simp del]

section \<open>The start of main\<close>

text \<open>
  The three flags \<^verbatim>\<open>-f\<close>, \<^verbatim>\<open>-t\<close> and \<^verbatim>\<open>-s\<close>, after \<^verbatim>\<open>flag.Parse\<close>.
\<close>

record flags =
  fromPath :: string
  toPath :: string
  sizesString :: string

datatype dir_error =
    DoesntExist string
  | StatError string
  | NotADirectory string
  | MkdirError string

definition validateDirectory :: "'img env \<Rightarrow> string \<Rightarrow> bool \<Rightarrow> dir_error option" where
  "validateDirectory e path mustExist =
     (case stat e path of
        StatNotExist \<Rightarrow> if mustExist then Some (DoesntExist path) else None
      | StatFailed \<Rightarrow> Some (StatError path)
      | StatNotDir \<Rightarrow> Some (NotADirectory path)
      | StatIsDir \<Rightarrow> None)"

definition MkdirAll :: "'img env \<Rightarrow> string \<Rightarrow> dir_error option" where
  "MkdirAll e path = (if mkdirAll_ok e path then None else Some (MkdirError path))"

text \<open>\<^verbatim>\<open>try\<close> stops at the first error of its arguments.\<close>

fun try_errs :: "dir_error option list \<Rightarrow> dir_error option" where
  "try_errs [] = None"
| "try_errs (None # errs) = try_errs errs"
| "try_errs (Some err # errs) = Some err"

text \<open>
  The calls main makes to the file system, in order, and the goroutines it starts.
\<close>

datatype event = EvStat string | EvMkdirAll string | EvGlob string | EvSpawn

text \<open>The five calls of \<^verbatim>\<open>log.Fatal\<close> in main and \<^verbatim>\<open>try\<close>.\<close>

datatype fatal =
    FatalDir dir_error
  | CantParseSizes size_error
  | NoSizesSpecified
  | CantGetImageFilenames glob_error
  | NoImagesToResize

text \<open>
  Main up to the line that starts the pipeline: either a fatal error, or the sizes
  and the files the pipeline is started with. \<open>check_dirs\<close> is the statement
  \<^verbatim>\<open>try(...)\<close>: its arguments are all evaluated before \<^verbatim>\<open>try\<close> is called, so the
  three calls to the file system (\<open>check_events\<close>) are made whatever the first of them
  answers.
\<close>

definition check_dirs :: "'img env \<Rightarrow> flags \<Rightarrow> dir_error option" where
  "check_dirs e fl =
     try_errs [validateDirectory e (fromPath fl) True,
               validateDirectory e (toPath fl) False,
               MkdirAll e (toPath fl)]"

definition check_events :: "flags \<Rightarrow> event list" where
  "check_events fl = [EvStat (fromPath fl), EvStat (toPath fl), EvMkdirAll (toPath fl)]"

definition main_setup :: "'img env \<Rightarrow> flags \<Rightarrow> event list \<times> (fatal + int list \<times> string list)" where
  "main_setup e fl =
     (let evs = check_events fl
      in case check_dirs e fl of
           Some err \<Rightarrow> (evs, Inl (FatalDir err))
         | None \<Rightarrow>
            (case parseSizes (sizesString fl) of
               Inl err \<Rightarrow> (evs, Inl (CantParseSizes err))
             | Inr sizes \<Rightarrow>
                 if length sizes \<le> 0 then (evs, Inl NoSizesSpecified)
                 else
                   let pattern = Join (fromPath fl) ''*.jpg'';
                       evs' = evs @ [EvGlob pattern]
                   in case Glob e pattern of
                        Inl err \<Rightarrow> (evs', Inl (CantGetImageFilenames err))
                      | Inr files \<Rightarrow>
                          if length files \<le> 0 then (evs', Inl NoImagesToResize)
                          else (evs' @ [EvSpawn, EvSpawn], Inr (sizes, files))))"

text \<open>\<^verbatim>\<open>log.Fatal\<close> ends the process with status 1.\<close>

definition fatal_status :: "fatal \<Rightarrow> nat" where
  "fatal_status f = 1"

section \<open>The pipeline\<close>

text \<open>
  After the setup, main starts \<^verbatim>\<open>readImages\<close> and \<^verbatim>\<open>resizeImages\<close> as goroutines and
  waits on the channel \<^verbatim>\<open>finished\<close>. \<^verbatim>\<open>readImages\<close> starts one \<^verbatim>\<open>readImage\<close> per
  file, \<^verbatim>\<open>resizeImages\<close> one \<^verbatim>\<open>resizeImage\<close> per image received and size. The
  goroutines run interleaved; each step below is one goroutine executing up to its
  next channel operation, spawn or call to the file system, and a goroutine whose
  channel operation would block has no step.
\<close>

text \<open>
  The value sent on the channel \<^verbatim>\<open>images\<close> is a pointer to a fresh \<^verbatim>\<open>imageData\<close>.
  \<open>ref\<close> is the identity of the pointer: the index of the \<^verbatim>\<open>readImage\<close> that
  allocated it.
\<close>

record 'img imageData =
  ref :: nat
  img :: 'img
  name :: string

record 'img config =
  cenv :: "'img env"
  gomaxprocs :: nat
  files :: "string list"
  sizes :: "int list"
  basePath :: string

text \<open>
  Where each goroutine stands. For \<^verbatim>\<open>readImage\<close>: not started, before \<^verbatim>\<open>os.Open\<close>,
  at the send on \<^verbatim>\<open>images\<close> with the decoded image, at the deferred send on \<^verbatim>\<open>finished\<close>, returned.
\<close>

datatype 'img rd_pc = Rd_None | Rd_Start | Rd_Send 'img | Rd_Defer | Rd_Done

text \<open>
  \<^verbatim>\<open>readImages\<close>: not started, in the first loop before the spawn for index \<open>i\<close>, in
  the second loop with \<open>i\<close> values received, returned after \<^verbatim>\<open>close(c)\<close>.
\<close>

datatype ri_pc = RI_None | RI_Spawn nat | RI_Wait nat | RI_Done

text \<open>
  \<^verbatim>\<open>resizeImages\<close>: not started, at the receive of the \<^verbatim>\<open>range\<close> loop, in the
  inner loop with image \<open>i\<close> before the spawn for the size of index \<open>k\<close>, in the
  last loop with \<open>i\<close> values received, returned after the send on \<^verbatim>\<open>allFinished\<close>.
\<close>

datatype 'img rz_pc = RZ_None | RZ_Range | RZ_Sizes "'img imageData" nat | RZ_Wait nat | RZ_Done

text \<open>
  \<^verbatim>\<open>resizeImage\<close>: before \<^verbatim>\<open>os.Create\<close>, before \<^verbatim>\<open>imaging.Fit\<close> and
  \<^verbatim>\<open>jpeg.Encode\<close>, at the deferred send on \<^verbatim>\<open>finished\<close> (the file, if one was
  created, has been closed by then), returned.
\<close>

datatype rs_pc = Rs_Start | Rs_Created | Rs_Defer | Rs_Done

datatype main_pc = M_Go1 | M_Go2 | M_Recv | M_Exit

record 'img task =
  t_img :: "'img imageData"
  t_size :: int
  t_pc :: rs_pc

text \<open>
  The state of the process. A channel of unit values is the number of values in its
  buffer. \<open>seen\<close> records the images the \<^verbatim>\<open>range\<close> loop has received and \<open>tasks\<close>
  every \<^verbatim>\<open>resizeImage\<close> started, in order; nothing reads them back. \<open>created\<close> and
  \<open>encoded\<close> are the paths for which \<^verbatim>\<open>os.Create\<close> and \<^verbatim>\<open>jpeg.Encode\<close> have
  succeeded, \<open>logged\<close> counts the errors written to the log.
\<close>

record 'img state =
  main_at :: main_pc
  ri_at :: ri_pc
  readers :: "'img rd_pc list"
  images :: "'img imageData list"
  images_closed :: bool
  rfinished :: nat
  rz_at :: "'img rz_pc"
  count :: nat
  tasks :: "'img task list"
  seen :: "'img imageData list"
  zfinished :: nat
  allFinished :: nat
  created :: "string list"
  encoded :: "string list"
  logged :: nat
  panicked :: bool

definition init :: "'img config \<Rightarrow> 'img state" where
  "init c =
     \<lparr> main_at = M_Go1, ri_at = RI_None, readers = replicate (length (files c)) Rd_None,
       images = [], images_closed = False, rfinished = 0,
       rz_at = RZ_None, count = 0, tasks = [], seen = [],
       zfinished = 0, allFinished = 0, created = [], encoded = [], logged = 0,
       panicked = False \<rparr>"

text \<open>Main: the two \<^verbatim>\<open>go\<close> statements, then the receive from \<^verbatim>\<open>finished\<close>.\<close>

definition step_main :: "'img state \<Rightarrow> 'img state option" where
  "step_main s =
     (case main_at s of
        M_Go1 \<Rightarrow> Some (s\<lparr>main_at := M_Go2, ri_at := RI_Spawn 0\<rparr>)
      | M_Go2 \<Rightarrow> Some (s\<lparr>main_at := M_Recv, rz_at := RZ_Range\<rparr>)
      | M_Recv \<Rightarrow>
          if allFinished s > 0
          then Some (s\<lparr>main_at := M_Exit, allFinished := allFinished s - 1\<rparr>)
          else None
      | M_Exit \<Rightarrow> None)"

definition step_readImages :: "'img config \<Rightarrow> 'img state \<Rightarrow> 'img state option" where
  "step_readImages c s =
     (case ri_at s of
        RI_None \<Rightarrow> None
      | RI_Spawn i \<Rightarrow>
          if i < length (files c)
          then Some (s\<lparr>readers := (readers s)[i := Rd_Start], ri_at := RI_Spawn (i + 1)\<rparr>)
          else Some (s\<lparr>ri_at := RI_Wait 0\<rparr>)
      | RI_Wait i \<Rightarrow>
          if i < length (files c)
          then (if rfinished s > 0
                then Some (s\<lparr>rfinished := rfinished s - 1, ri_at := RI_Wait (i + 1)\<rparr>)
                else None)
          else Some (s\<lparr>images_closed := True, ri_at := RI_Done\<rparr>)
      | RI_Done \<Rightarrow> None)"

text \<open>
  \<^verbatim>\<open>readImage\<close> for the file of index \<open>i\<close>. A send on a closed channel panics; a send
  on a full channel blocks.
\<close>

definition step_readImage :: "'img config \<Rightarrow> nat \<Rightarrow> 'img state \<Rightarrow> 'img state option" where
  "step_readImage c i s =
     (if i \<ge> length (readers s) \<or> i \<ge> length (files c) then None
      else case readers s ! i of
        Rd_None \<Rightarrow> None
      | Rd_Start \<Rightarrow>
          (case decode (cenv c) (files c ! i) of
             None \<Rightarrow> Some (s\<lparr>readers := (readers s)[i := Rd_Defer], logged := logged s + 1\<rparr>)
           | Some im \<Rightarrow> Some (s\<lparr>readers := (readers s)[i := Rd_Send im]\<rparr>))
      | Rd_Send im \<Rightarrow>
          if images_closed s then Some (s\<lparr>panicked := True\<rparr>)
          else if length (images s) < gomaxprocs c
          then Some (s\<lparr>images := images s @
                           [\<lparr>ref = i, img = im, name = imageName (files c ! i)\<rparr>],
                        readers := (readers s)[i := Rd_Defer]\<rparr>)
          else None
      | Rd_Defer \<Rightarrow>
          if rfinished s < gomaxprocs c
          then Some (s\<lparr>rfinished := rfinished s + 1, readers := (readers s)[i := Rd_Done]\<rparr>)
          else None
      | Rd_Done \<Rightarrow> None)"

definition step_resizeImages :: "'img config \<Rightarrow> 'img state \<Rightarrow> 'img state option" where
  "step_resizeImages c s =
     (case rz_at s of
        RZ_None \<Rightarrow> None
      | RZ_Range \<Rightarrow>
          (case images s of
             i # rest \<Rightarrow> Some (s\<lparr>images := rest, seen := seen s @ [i], rz_at := RZ_Sizes i 0\<rparr>)
           | [] \<Rightarrow> if images_closed s then Some (s\<lparr>rz_at := RZ_Wait 0\<rparr>) else None)
      | RZ_Sizes i k \<Rightarrow>
          if k < length (sizes c)
          then Some (s\<lparr>count := count s + 1,
                        tasks := tasks s @ [\<lparr>t_img = i, t_size = sizes c ! k, t_pc = Rs_Start\<rparr>],
                        rz_at := RZ_Sizes i (k + 1)\<rparr>)
          else Some (s\<lparr>rz_at := RZ_Range\<rparr>)
      | RZ_Wait i \<Rightarrow>
          if i < count s
          then (if zfinished s > 0
                then Some (s\<lparr>zfinished := zfinished s - 1, rz_at := RZ_Wait (i + 1)\<rparr>)
                else None)
          else if allFinished s < gomaxprocs c
          then Some (s\<lparr>allFinished := allFinished s + 1, rz_at := RZ_Done\<rparr>)
          else None
      | RZ_Done \<Rightarrow> None)"

text \<open>The \<^verbatim>\<open>resizeImage\<close> of index \<open>k\<close> in the order of their start.\<close>

definition step_resizeImage :: "'img config \<Rightarrow> nat \<Rightarrow> 'img state \<Rightarrow> 'img state option" where
  "step_resizeImage c k s =
     (if k \<ge> length (tasks s) then None
      else
        let t = tasks s ! k;
            path = resizePath (basePath c) (name (t_img t)) (t_size t)
        in case t_pc t of
             Rs_Start \<Rightarrow>
               if create_ok (cenv c) path
               then Some (s\<lparr>created := created s @ [path],
                             tasks := (tasks s)[k := t\<lparr>t_pc := Rs_Created\<rparr>]\<rparr>)
               else Some (s\<lparr>logged := logged s + 1,
                             tasks := (tasks s)[k := t\<lparr>t_pc := Rs_Defer\<rparr>]\<rparr>)
           | Rs_Created \<Rightarrow>
               if encode_ok (cenv c) (img (t_img t)) (t_size t)
               then Some (s\<lparr>encoded := encoded s @ [path],
                             tasks := (tasks s)[k := t\<lparr>t_pc := Rs_Defer\<rparr>]\<rparr>)
               else Some (s\<lparr>logged := logged s + 1,
                             tasks := (tasks s)[k := t\<lparr>t_pc := Rs_Defer\<rparr>]\<rparr>)
           | Rs_Defer \<Rightarrow>
               if zfinished s < gomaxprocs c
               then Some (s\<lparr>zfinished := zfinished s + 1,
                             tasks := (tasks s)[k := t\<lparr>t_pc := Rs_Done\<rparr>]\<rparr>)
               else None
           | Rs_Done \<Rightarrow> None)"

text \<open>
  The scheduler picks a goroutine. The process is over once main has returned or a
  goroutine has panicked: then nothing runs any more.
\<close>

datatype action =
    Main
  | ReadImages
  | ReadImage nat
  | ResizeImages
  | ResizeImage nat

definition ended :: "'img state \<Rightarrow> bool" where
  "ended s = (main_at s = M_Exit \<or> panicked s)"

fun step_of :: "'img config \<Rightarrow> action \<Rightarrow> 'img state \<Rightarrow> 'img state option" where
  "step_of c Main s = step_main s"
| "step_of c ReadImages s = step_readImages c s"
| "step_of c (ReadImage i) s = step_readImage c i s"
| "step_of c ResizeImages s = step_resizeImages c s"
| "step_of c (ResizeImage k) s = step_resizeImage c k s"

definition step :: "'img config \<Rightarrow> action \<Rightarrow> 'img state \<Rightarrow> 'img state option" where
  "step c a s = (if ended s then None else step_of c a s)"

text \<open>A schedule is a list of actions; it runs as long as every action has a step.\<close>

fun run :: "'img config \<Rightarrow> action list \<Rightarrow> 'img state \<Rightarrow> 'img state option" where
  "run c [] s = Some s"
| "run c (a # as) s = (case step c a s of None \<Rightarrow> None | Some s' \<Rightarrow> run c as s')"

inductive reachable :: "'img config \<Rightarrow> 'img state \<Rightarrow> bool" for c :: "'img config" where
  reach_init: "reachable c (init c)"
| reach_step: "reachable c s \<Longrightarrow> step c a s = Some s' \<Longrightarrow> reachable c s'"

text \<open>
  The exit status of the process: 0 when main returns, 2 when the Go runtime ends the
  process after a panic.
\<close>

definition exit_status :: "'img state \<Rightarrow> nat option" where
  "exit_status s =
     (if panicked s then Some 2 else if main_at s = M_Exit then Some 0 else None)"

text \<open>
  The whole process: when the setup ends with a fatal error there is no pipeline;
  otherwise the pipeline runs on the sizes and files of the setup, with the
  environment of the process, the destination directory of the flags and channels of
  capacity \<open>n\<close>, the value of \<^verbatim>\<open>runtime.GOMAXPROCS(0)\<close>.
\<close>

definition pipeline_of :: "'img env \<Rightarrow> nat \<Rightarrow> flags \<Rightarrow> 'img config option" where
  "pipeline_of e n fl =
     (case snd (main_setup e fl) of
        Inl f \<Rightarrow> None
      | Inr (szs, fs) \<Rightarrow>
          Some \<lparr> cenv = e, gomaxprocs = n, files = fs, sizes = szs, basePath = toPath fl \<rparr>)"

section \<open>Notions used to state the properties\<close>

text \<open>
  A token is accepted by the loop of \<^verbatim>\<open>parseSizes\<close> when \<^verbatim>\<open>ParseInt\<close> returns a number
  without error and the number is not negative.
\<close>

definition accepted :: "string \<Rightarrow> bool" where
  "accepted t = (case ParseInt t of Inl err \<Rightarrow> False | Inr i \<Rightarrow> 0 \<le> i)"

definition token_value :: "string \<Rightarrow> int" where
  "token_value t = (case ParseInt t of Inl err \<Rightarrow> 0 | Inr i \<Rightarrow> i)"

text \<open>
  The pieces of a string between its commas, the empty ones included: what is left
  of and right of each comma. \<open>cur\<close> is the piece read so far, reversed.
\<close>

fun pieces_from :: "string \<Rightarrow> string \<Rightarrow> string list" where
  "pieces_from cur [] = [rev cur]"
| "pieces_from cur (c # cs) =
     (if c = CHR '','' then rev cur # pieces_from [] cs else pieces_from (c # cur) cs)"

definition comma_pieces :: "string \<Rightarrow> string list" where
  "comma_pieces s = pieces_from [] s"

section \<open>Notions used to state the properties of the pipeline\<close>

text \<open>
  How many \<^verbatim>\<open>readImage\<close> goroutines \<^verbatim>\<open>readImages\<close> has started, and how many values
  \<^verbatim>\<open>readImages\<close> and \<^verbatim>\<open>resizeImages\<close> have received from their channel
  \<^verbatim>\<open>finished\<close>.
\<close>

definition ri_spawned :: "'img config \<Rightarrow> 'img state \<Rightarrow> nat" where
  "ri_spawned c s =
     (case ri_at s of RI_None \<Rightarrow> 0 | RI_Spawn i \<Rightarrow> i
      | RI_Wait i \<Rightarrow> length (files c) | RI_Done \<Rightarrow> length (files c))"

definition ri_received :: "'img config \<Rightarrow> 'img state \<Rightarrow> nat" where
  "ri_received c s =
     (case ri_at s of RI_None \<Rightarrow> 0 | RI_Spawn i \<Rightarrow> 0
      | RI_Wait i \<Rightarrow> i | RI_Done \<Rightarrow> length (files c))"

definition rz_received :: "'img state \<Rightarrow> nat" where
  "rz_received s =
     (case rz_at s of RZ_None \<Rightarrow> 0 | RZ_Range \<Rightarrow> 0 | RZ_Sizes i k \<Rightarrow> 0
      | RZ_Wait i \<Rightarrow> i | RZ_Done \<Rightarrow> count s)"

text \<open>
  A \<^verbatim>\<open>readImage\<close> or \<^verbatim>\<open>resizeImage\<close> has reported when it has sent on the channel
  \<^verbatim>\<open>finished\<close>.
\<close>

definition done_readers :: "'img state \<Rightarrow> nat" where
  "done_readers s = length (filter (\<lambda>p. p = Rd_Done) (readers s))"

definition done_tasks :: "'img state \<Rightarrow> nat" where
  "done_tasks s = length (filter (\<lambda>t. t_pc t = Rs_Done) (tasks s))"

text \<open>
  The image \<open>d\<close> was decoded and sent by the \<^verbatim>\<open>readImage\<close> it points back to: that
  goroutine is past its send, the file of its index decodes to the image, and the
  name is the one derived from that file.
\<close>

definition sent_by :: "'img config \<Rightarrow> 'img state \<Rightarrow> 'img imageData \<Rightarrow> bool" where
  "sent_by c s d =
     (ref d < length (files c) \<and>
      (readers s ! ref d = Rd_Defer \<or> readers s ! ref d = Rd_Done) \<and>
      decode (cenv c) (files c ! ref d) = Some (img d) \<and>
      name d = imageName (files c ! ref d))"

definition task_key :: "'img task \<Rightarrow> 'img imageData \<times> int" where
  "task_key t = (t_img t, t_size t)"

definition path_of :: "'img config \<Rightarrow> 'img task \<Rightarrow> string" where
  "path_of c t = resizePath (basePath c) (name (t_img t)) (t_size t)"

text \<open>
  The invariants of the pipeline. The first is about \<^verbatim>\<open>readImages\<close> and its
  goroutines: the started ones are those below the loop index, the values sent on
  \<^verbatim>\<open>finished\<close> are those received plus those in the buffer, and \<^verbatim>\<open>images\<close> is closed
  only when \<^verbatim>\<open>readImages\<close> has returned.
\<close>

definition inv_readers :: "'img config \<Rightarrow> 'img state \<Rightarrow> bool" where
  "inv_readers c s =
     (length (readers s) = length (files c) \<and>
      ri_spawned c s \<le> length (files c) \<and>
      ri_received c s \<le> length (files c) \<and>
      (\<forall>i < length (files c). (readers s ! i = Rd_None) = (ri_spawned c s \<le> i)) \<and>
      ri_received c s + rfinished s = done_readers s \<and>
      images_closed s = (ri_at s = RI_Done) \<and>
      (ri_at s = RI_None) = (main_at s = M_Go1) \<and>
      \<not> panicked s)"

text \<open>
  The images sent so far are those received by the \<^verbatim>\<open>range\<close> loop followed by those
  in the buffer; each comes from another \<^verbatim>\<open>readImage\<close>, and every \<^verbatim>\<open>readImage\<close> past
  its send has its image among them.
\<close>

definition inv_images :: "'img config \<Rightarrow> 'img state \<Rightarrow> bool" where
  "inv_images c s =
     (distinct (map ref (seen s @ images s)) \<and>
      (\<forall>d \<in> set (seen s @ images s). sent_by c s d) \<and>
      (\<forall>i < length (files c). \<forall>im. readers s ! i = Rd_Send im \<longrightarrow>
          decode (cenv c) (files c ! i) = Some im) \<and>
      (\<forall>i < length (files c). \<forall>im.
          (readers s ! i = Rd_Defer \<or> readers s ! i = Rd_Done) \<and>
          decode (cenv c) (files c ! i) = Some im \<longrightarrow>
          \<lparr>ref = i, img = im, name = imageName (files c ! i)\<rparr> \<in> set (seen s @ images s)))"

text \<open>
  The \<^verbatim>\<open>resizeImage\<close> goroutines started so far are one for every image received and
  every size, in that order, up to the index of the inner loop for the last image;
  the values sent on \<^verbatim>\<open>finished\<close> are those received plus those in the buffer.
\<close>

definition inv_tasks :: "'img config \<Rightarrow> 'img state \<Rightarrow> bool" where
  "inv_tasks c s =
     (count s = length (tasks s) \<and>
      (case rz_at s of
         RZ_Sizes i k \<Rightarrow>
           seen s \<noteq> [] \<and> last (seen s) = i \<and> k \<le> length (sizes c) \<and>
           map task_key (tasks s) =
             List.product (butlast (seen s)) (sizes c) @ map (Pair i) (take k (sizes c))
       | RZ_Wait i \<Rightarrow>
           i \<le> count s \<and> map task_key (tasks s) = List.product (seen s) (sizes c)
       | _ \<Rightarrow> map task_key (tasks s) = List.product (seen s) (sizes c)) \<and>
      rz_received s + zfinished s = done_tasks s \<and>
      ((rz_at s = RZ_Done \<or> (\<exists>i. rz_at s = RZ_Wait i)) \<longrightarrow> images_closed s \<and> images s = []) \<and>
      (rz_at s = RZ_None) = (main_at s = M_Go1 \<or> main_at s = M_Go2) \<and>
      allFinished s = (if rz_at s = RZ_Done \<and> main_at s \<noteq> M_Exit then 1 else 0) \<and>
      (main_at s = M_Exit \<longrightarrow> rz_at s = RZ_Done))"

text \<open>
  The files created are those of the \<^verbatim>\<open>resizeImage\<close> goroutines that are past
  \<^verbatim>\<open>os.Create\<close> and for whose path \<^verbatim>\<open>os.Create\<close> succeeds.
\<close>

definition was_created :: "'img config \<Rightarrow> 'img task \<Rightarrow> bool" where
  "was_created c t = (t_pc t \<noteq> Rs_Start \<and> create_ok (cenv c) (path_of c t))"

definition inv_files :: "'img config \<Rightarrow> 'img state \<Rightarrow> bool" where
  "inv_files c s =
     (set (created s) = set (map (path_of c) (filter (was_created c) (tasks s))))"

definition inv :: "'img config \<Rightarrow> 'img state \<Rightarrow> bool" where
  "inv c s = (inv_readers c s \<and> inv_images c s \<and> inv_tasks c s \<and> inv_files c s)"

text \<open>
  A bound on the number of steps left. A \<^verbatim>\<open>readImage\<close> that may still send an image
  counts, besides its own steps, the steps that image will cost \<^verbatim>\<open>resizeImages\<close> and
  the \<^verbatim>\<open>resizeImage\<close> goroutines started for it (\<open>image_cost\<close>); so does an image in the
  buffer.
\<close>

definition image_cost :: "'img config \<Rightarrow> nat" where
  "image_cost c = 2 + 5 * length (sizes c)"

fun main_left :: "main_pc \<Rightarrow> nat" where
  "main_left M_Go1 = 3"
| "main_left M_Go2 = 2"
| "main_left M_Recv = 1"
| "main_left M_Exit = 0"

fun ri_left :: "nat \<Rightarrow> ri_pc \<Rightarrow> nat" where
  "ri_left n RI_None = 2 * n + 2"
| "ri_left n (RI_Spawn i) = (n - i) + n + 2"
| "ri_left n (RI_Wait i) = (n - i) + 1"
| "ri_left n RI_Done = 0"

fun rd_left :: "nat \<Rightarrow> 'img rd_pc \<Rightarrow> nat" where
  "rd_left w Rd_None = 3 + w"
| "rd_left w Rd_Start = 3 + w"
| "rd_left w (Rd_Send im) = 2 + w"
| "rd_left w Rd_Defer = 1"
| "rd_left w Rd_Done = 0"

fun rz_left :: "nat \<Rightarrow> nat \<Rightarrow> 'img rz_pc \<Rightarrow> nat" where
  "rz_left l n RZ_None = 2 + n"
| "rz_left l n RZ_Range = 2 + n"
| "rz_left l n (RZ_Sizes i k) = 5 * (l - k) + 3 + n"
| "rz_left l n (RZ_Wait i) = 1 + (n - i)"
| "rz_left l n RZ_Done = 0"

fun rs_left :: "rs_pc \<Rightarrow> nat" where
  "rs_left Rs_Start = 3"
| "rs_left Rs_Created = 2"
| "rs_left Rs_Defer = 1"
| "rs_left Rs_Done = 0"

definition steps_left :: "'img config \<Rightarrow> 'img state \<Rightarrow> nat" where
  "steps_left c s =
     main_left (main_at s) + ri_left (length (files c)) (ri_at s) +
     sum_list (map (rd_left (image_cost c)) (readers s)) +
     image_cost c * length (images s) +
     rz_left (length (sizes c)) (count s) (rz_at s) +
     sum_list (map (\<lambda>t. rs_left (t_pc t)) (tasks s))"

section \<open>Example inputs\<close>

text \<open>
  A file system in which every call succeeds and the directory \<^verbatim>\<open>in\<close> holds two
  pictures, and the flags \<^verbatim>\<open>-f in -t out -s s\<close>.
\<close>

definition example_env :: "unit env" where
  "example_env =
     \<lparr> stat = (\<lambda>p. StatIsDir), mkdirAll_ok = (\<lambda>p. True), lstat_ok = (\<lambda>p. True),
       readDirNames = (\<lambda>p. if p = ''in'' then Some [''a.jpg'', ''b.jpg''] else None),
       globClasses = (\<lambda>p. Inr []),
       decode = (\<lambda>p. Some ()), create_ok = (\<lambda>p. True), encode_ok = (\<lambda>i s. True) \<rparr>"

definition example_flags :: "string \<Rightarrow> flags" where
  "example_flags s = \<lparr> fromPath = ''in'', toPath = ''out'', sizesString = s \<rparr>"

text \<open>
  A run of the pipeline on two files and two sizes with channels of capacity 1, in
  which \<^verbatim>\<open>in/b.jpg\<close> does not decode and \<^verbatim>\<open>out/a_100.jpg\<close> cannot be created: the
  configuration, a schedule, and the state the schedule ends in.
\<close>

definition failing_env :: "unit env" where
  "failing_env =
     example_env\<lparr>decode := (\<lambda>p. if p = ''in/b.jpg'' then None else Some ()),
                 create_ok := (\<lambda>p. p \<noteq> ''out/a_100.jpg'')\<rparr>"

definition failing_config :: "unit config" where
  "failing_config =
     \<lparr> cenv = failing_env, gomaxprocs = 1, files = [''in/a.jpg'', ''in/b.jpg''],
       sizes = [50, 100], basePath = ''out'' \<rparr>"

definition failing_schedule :: "action list" where
  "failing_schedule =
     [Main, Main, ReadImages, ReadImages, ReadImages, ReadImage 1, ReadImage 1,
      ReadImages, ReadImage 0, ReadImage 0, ResizeImages, ResizeImages,
      ResizeImages, ResizeImages, ResizeImage 1, ResizeImage 1, ResizeImage 0,
      ResizeImage 0, ReadImage 0, ReadImages, ReadImages, ResizeImages,
      ResizeImages, ResizeImage 0, ResizeImages, ResizeImages, Main]"

definition failing_final :: "unit state" where
  "failing_final =
     \<lparr> main_at = M_Exit, ri_at = RI_Done, readers = [Rd_Done, Rd_Done], images = [],
       images_closed = True, rfinished = 0, rz_at = RZ_Done, count = 2,
       tasks =
         [\<lparr>t_img = \<lparr>ref = 0, img = (), name = ''a''\<rparr>, t_size = 50, t_pc = Rs_Done\<rparr>,
          \<lparr>t_img = \<lparr>ref = 0, img = (), name = ''a''\<rparr>, t_size = 100, t_pc = Rs_Done\<rparr>],
       seen = [\<lparr>ref = 0, img = (), name = ''a''\<rparr>], zfinished = 0, allFinished = 0,
       created = [''out/a_50.jpg''], encoded = [''out/a_50.jpg''], logged = 2,
       panicked = False \<rparr>"

section \<open>Properties of the size list\<close>

lemma fields_from_pieces:
  "fields_from isComma cur s = filter (\<lambda>t. t \<noteq> []) (pieces_from cur s)"
  by (induction s arbitrary: cur) (simp_all add: isComma_def)

lemma FieldsFunc_pieces:
  "FieldsFunc s isComma = filter (\<lambda>t. t \<noteq> []) (comma_pieces s)"
  by (simp add: FieldsFunc_def comma_pieces_def fields_from_pieces)

lemma fields_from_only_commas:
  "\<forall>c \<in> set s. c = CHR '','' \<Longrightarrow> fields_from isComma [] s = []"
  by (induction s) (simp_all add: isComma_def)

lemma parseSizes_loop_Inr:
  "parseSizes_loop s acc ts = Inr xs \<longleftrightarrow>
     (\<forall>t \<in> set ts. accepted t) \<and> xs = acc @ map token_value ts"
proof (induction ts arbitrary: acc)
  case Nil
  show ?case by auto
next
  case (Cons t ts)
  show ?case
  proof (cases "ParseInt t")
    case (Inl err)
    then show ?thesis by (cases err) (simp_all add: accepted_def)
  next
    case (Inr i)
    then show ?thesis using Cons.IH [of "acc @ [i]"]
      by (simp add: accepted_def token_value_def)
  qed
qed

lemma parseSizes_Inr:
  "parseSizes s = Inr xs \<longleftrightarrow>
     (\<forall>t \<in> set (FieldsFunc s isComma). accepted t) \<and> xs = map token_value (FieldsFunc s isComma)"
  by (simp add: parseSizes_def parseSizes_loop_Inr)

lemma parseSizes_Inl:
  "isl (parseSizes s) \<longleftrightarrow> (\<exists>t \<in> set (FieldsFunc s isComma). \<not> accepted t)"
proof (cases "parseSizes s")
  case (Inl err)
  then have "\<not> (\<forall>t \<in> set (FieldsFunc s isComma). accepted t)"
    using parseSizes_Inr [of s "map token_value (FieldsFunc s isComma)"] by auto
  with Inl show ?thesis by simp
next
  case (Inr xs)
  then show ?thesis using parseSizes_Inr [of s xs] by simp
qed

lemmas parse_eval =
  parseSizes_def FieldsFunc_def isComma_def ParseInt_def ParseUint_def digit_val_def
  maxUint64_def IntSize_def

lemma accepted_0: "accepted ''0''"
  by (simp add: accepted_def parse_eval)

lemma token_value_0: "token_value ''0'' = 0"
  by (simp add: token_value_def parse_eval)

lemma main_setup_parse_error:
  assumes "parseSizes (sizesString fl) = Inl err"
  shows "main_setup e fl = (check_events fl,
           Inl (case check_dirs e fl of Some d \<Rightarrow> FatalDir d | None \<Rightarrow> CantParseSizes err))"
  using assms by (simp add: main_setup_def split: option.splits)

lemma main_setup_no_sizes:
  assumes "parseSizes (sizesString fl) = Inr []"
  shows "main_setup e fl = (check_events fl,
           Inl (case check_dirs e fl of Some d \<Rightarrow> FatalDir d | None \<Rightarrow> NoSizesSpecified))"
  using assms by (simp add: main_setup_def split: option.splits)

lemmas setup_eval =
  main_setup_def check_dirs_def check_events_def validateDirectory_def MkdirAll_def
  example_env_def example_flags_def

text \<open>
  C7, as the claim states it: the parser returns a set, so no size is repeated. It
  fails: for \<^verbatim>\<open>"50,50"\<close> the result holds 50 twice.
\<close>

theorem parseSizes_duplicates_counterexample:
  "parseSizes ''50,50'' = Inr [50, 50] \<and> \<not> distinct [50, 50 :: int]"
  by (simp add: parse_eval)

text \<open>
  C7, amended: when \<^verbatim>\<open>parseSizes\<close> succeeds, its result is the list of the values of
  the tokens, in their order and one for each token, and no value is negative.
  Nothing removes a repeated value.
\<close>

theorem parseSizes_one_size_per_token:
  assumes "parseSizes s = Inr xs"
  shows "xs = map token_value (FieldsFunc s isComma) \<and>
         length xs = length (FieldsFunc s isComma) \<and> (\<forall>x \<in> set xs. 0 \<le> x)"
proof -
  from assms have acc: "\<forall>t \<in> set (FieldsFunc s isComma). accepted t"
    and xs: "xs = map token_value (FieldsFunc s isComma)"
    by (simp_all add: parseSizes_Inr)
  have "0 \<le> token_value t" if "accepted t" for t
    using that by (auto simp: accepted_def token_value_def split: sum.splits)
  with acc xs show ?thesis by auto
qed

theorem parseSizes_one_size_per_token_witness:
  "parseSizes ''50,50'' = Inr [50, 50] \<and>
   [50, 50] = map token_value (FieldsFunc ''50,50'' isComma) \<and>
   length [50, 50 :: int] = length (FieldsFunc ''50,50'' isComma) \<and>
   list_all (\<lambda>x. 0 \<le> x) [50, 50 :: int]"
proof -
  have h: "parseSizes ''50,50'' = Inr [50, 50]" by (simp add: parse_eval)
  from parseSizes_one_size_per_token [OF h]
  have "[50, 50] = map token_value (FieldsFunc ''50,50'' isComma) \<and>
        length [50, 50 :: int] = length (FieldsFunc ''50,50'' isComma)"
    by blast
  moreover have "list_all (\<lambda>x. 0 \<le> x) [50, 50 :: int]" by simp
  ultimately show ?thesis using h by blast
qed

text \<open>
  C8: the token \<^verbatim>\<open>"0"\<close> is accepted. If it is among the tokens of the string, every
  successful result holds 0, and the parser succeeds as soon as the other tokens are
  accepted.
\<close>

theorem parseSizes_accepts_zero:
  assumes "''0'' \<in> set (FieldsFunc s isComma)"
  shows "accepted ''0'' \<and>
         (\<forall>xs. parseSizes s = Inr xs \<longrightarrow> 0 \<in> set xs) \<and>
         ((\<forall>t \<in> set (FieldsFunc s isComma). t \<noteq> ''0'' \<longrightarrow> accepted t) \<longrightarrow>
            (\<exists>xs. parseSizes s = Inr xs \<and> 0 \<in> set xs))"
proof -
  have v: "0 \<in> set (map token_value (FieldsFunc s isComma))"
    using assms token_value_0 by force
  have "\<forall>t \<in> set (FieldsFunc s isComma). accepted t"
    if "\<forall>t \<in> set (FieldsFunc s isComma). t \<noteq> ''0'' \<longrightarrow> accepted t"
    using that accepted_0 by metis
  with v show ?thesis by (auto simp: parseSizes_Inr accepted_0)
qed

theorem parseSizes_accepts_zero_witness:
  "''0'' \<in> set (FieldsFunc ''7,0'' isComma) \<and> parseSizes ''7,0'' = Inr [7, 0] \<and>
   parseSizes ''0'' = Inr [0]"
proof -
  have h: "''0'' \<in> set (FieldsFunc ''7,0'' isComma)" by (simp add: parse_eval)
  have a: "\<forall>t \<in> set (FieldsFunc ''7,0'' isComma). t \<noteq> ''0'' \<longrightarrow> accepted t"
    by (simp add: accepted_def parse_eval)
  from parseSizes_accepts_zero [OF h] a h show ?thesis by (simp add: parse_eval)
qed

text \<open>
  C6: \<^verbatim>\<open>parseSizes\<close> returns an error if \<^verbatim>\<open>ParseInt\<close> fails on one of the tokens
  (with a syntax or a range error) or gives a negative number; and main ends with a
  fatal error, so with a status other than 0, when \<^verbatim>\<open>parseSizes\<close> returns an error
  and when it returns no size.
\<close>

theorem bad_sizes_abort:
  "((\<exists>t \<in> set (FieldsFunc s isComma).
       ParseInt t = Inl ErrSyntax \<or> ParseInt t = Inl ErrRange \<or> (\<exists>i. ParseInt t = Inr i \<and> i < 0))
     \<longrightarrow> (\<exists>err. parseSizes s = Inl err)) \<and>
   ((\<exists>err. parseSizes (sizesString fl) = Inl err) \<or> parseSizes (sizesString fl) = Inr []
     \<longrightarrow> (\<exists>f. snd (main_setup e fl) = Inl f \<and> fatal_status f \<noteq> 0))"
proof (intro conjI impI)
  assume "\<exists>t \<in> set (FieldsFunc s isComma).
       ParseInt t = Inl ErrSyntax \<or> ParseInt t = Inl ErrRange \<or> (\<exists>i. ParseInt t = Inr i \<and> i < 0)"
  then obtain t where t: "t \<in> set (FieldsFunc s isComma)"
    and bad: "ParseInt t = Inl ErrSyntax \<or> ParseInt t = Inl ErrRange \<or> (\<exists>i. ParseInt t = Inr i \<and> i < 0)"
    by blast
  from bad have "\<not> accepted t" by (auto simp: accepted_def)
  with t have "isl (parseSizes s)" unfolding parseSizes_Inl by blast
  then show "\<exists>err. parseSizes s = Inl err" by (cases "parseSizes s") simp_all
next
  assume "(\<exists>err. parseSizes (sizesString fl) = Inl err) \<or> parseSizes (sizesString fl) = Inr []"
  then show "\<exists>f. snd (main_setup e fl) = Inl f \<and> fatal_status f \<noteq> 0"
    by (auto simp: main_setup_parse_error main_setup_no_sizes fatal_status_def)
qed

theorem bad_sizes_abort_witness:
  "parseSizes ''12,x3'' = Inl (NotValidSize ''12,x3'') \<and>
   parseSizes ''-5'' = Inl (SizeLessThanZero (- 5)) \<and>
   snd (main_setup example_env (example_flags ''12,x3'')) = Inl (CantParseSizes (NotValidSize ''12,x3'')) \<and>
   snd (main_setup example_env (example_flags '','')) = Inl NoSizesSpecified"
proof -
  have a: "\<exists>t \<in> set (FieldsFunc ''12,x3'' isComma).
       ParseInt t = Inl ErrSyntax \<or> ParseInt t = Inl ErrRange \<or> (\<exists>i. ParseInt t = Inr i \<and> i < 0)"
    by (simp add: parse_eval)
  have b: "(\<exists>err. parseSizes (sizesString (example_flags '','')) = Inl err) \<or>
           parseSizes (sizesString (example_flags '','')) = Inr []"
    by (simp add: example_flags_def parse_eval)
  from bad_sizes_abort [of "''12,x3''" "example_flags '',''" example_env] a b
  show ?thesis by (simp add: setup_eval parse_eval)
qed

text \<open>
  C4: with a size list that \<^verbatim>\<open>parseSizes\<close> rejects, main ends with a fatal error
  (status 1) after the three calls of the directory check and nothing else: no call
  to \<^verbatim>\<open>Glob\<close>, no goroutine.
\<close>

theorem malformed_sizes_abort_before_io:
  assumes "parseSizes (sizesString fl) = Inl err"
  shows "fst (main_setup e fl) = [EvStat (fromPath fl), EvStat (toPath fl), EvMkdirAll (toPath fl)] \<and>
         (\<exists>f. snd (main_setup e fl) = Inl f \<and> fatal_status f = 1) \<and>
         EvSpawn \<notin> set (fst (main_setup e fl)) \<and>
         (\<forall>p. EvGlob p \<notin> set (fst (main_setup e fl)))"
  using assms by (simp add: main_setup_parse_error check_events_def fatal_status_def)

theorem malformed_sizes_abort_before_io_witness:
  "parseSizes ''abc'' = Inl (NotValidSize ''abc'') \<and>
   main_setup example_env (example_flags ''abc'') =
     ([EvStat ''in'', EvStat ''out'', EvMkdirAll ''out''], Inl (CantParseSizes (NotValidSize ''abc''))) \<and>
   parseSizes ''-5'' = Inl (SizeLessThanZero (- 5)) \<and>
   main_setup example_env (example_flags ''-5'') =
     ([EvStat ''in'', EvStat ''out'', EvMkdirAll ''out''], Inl (CantParseSizes (SizeLessThanZero (- 5))))"
proof -
  have a: "parseSizes (sizesString (example_flags ''abc'')) = Inl (NotValidSize ''abc'')"
    by (simp add: example_flags_def parse_eval)
  have b: "parseSizes (sizesString (example_flags ''-5'')) = Inl (SizeLessThanZero (- 5))"
    by (simp add: example_flags_def parse_eval)
  from malformed_sizes_abort_before_io [OF a, of example_env]
    malformed_sizes_abort_before_io [OF b, of example_env]
  show ?thesis by (simp add: setup_eval parse_eval)
qed

text \<open>
  C9: the fields of \<^verbatim>\<open>FieldsFunc\<close> are the non-empty pieces between the commas, so
  \<^verbatim>\<open>"5,,10,"\<close> gives 5 and 10; a string of commas only (or the empty string) gives no
  size and no error, and main, once the directory check has passed, ends with
  \<^verbatim>\<open>no sizes specified\<close>.
\<close>

theorem empty_tokens_skipped:
  "parseSizes ''5,,10,'' = Inr [5, 10] \<and>
   FieldsFunc s isComma = filter (\<lambda>t. t \<noteq> []) (comma_pieces s) \<and>
   ((\<forall>c \<in> set s. c = CHR '','') \<longrightarrow> parseSizes s = Inr []) \<and>
   ((\<forall>c \<in> set (sizesString fl). c = CHR '','') \<and> check_dirs e fl = None \<longrightarrow>
      main_setup e fl = (check_events fl, Inl NoSizesSpecified))"
proof -
  have only: "parseSizes x = Inr []" if "\<forall>c \<in> set x. c = CHR '',''" for x
    using that by (simp add: parseSizes_def FieldsFunc_def fields_from_only_commas)
  have "parseSizes ''5,,10,'' = Inr [5, 10]" by (simp add: parse_eval)
  moreover have "main_setup e fl = (check_events fl, Inl NoSizesSpecified)"
    if "\<forall>c \<in> set (sizesString fl). c = CHR '',''" and "check_dirs e fl = None"
    using only [OF that(1)] that(2) by (simp add: main_setup_no_sizes)
  ultimately show ?thesis using only FieldsFunc_pieces by blast
qed

theorem empty_tokens_skipped_witness:
  "parseSizes '',,'' = Inr [] \<and> parseSizes [] = Inr [] \<and>
   comma_pieces ''5,,10,'' = [''5'', [], ''10'', []] \<and>
   FieldsFunc ''5,,10,'' isComma = [''5'', ''10''] \<and>
   main_setup example_env (example_flags '',,'') =
     ([EvStat ''in'', EvStat ''out'', EvMkdirAll ''out''], Inl NoSizesSpecified)"
proof -
  have a: "\<forall>c \<in> set (sizesString (example_flags '',,'')). c = CHR '',''"
    by (simp add: example_flags_def)
  have b: "check_dirs example_env (example_flags '',,'') = None"
    by (simp add: setup_eval)
  from empty_tokens_skipped [of "''5,,10,''" "example_flags '',,''" example_env] a b
  show ?thesis by (simp add: setup_eval parse_eval comma_pieces_def)
qed

text \<open>
  C5, at the file \<^verbatim>\<open>in/a.jpg.jpg\<close>: the name with its extension stripped is
  \<^verbatim>\<open>a.jpg\<close>, but \<^verbatim>\<open>strings.Replace\<close> removes every occurrence of \<^verbatim>\<open>.jpg\<close>, and
  \<^verbatim>\<open>readImage\<close> names the image \<^verbatim>\<open>a\<close>, as it does for \<^verbatim>\<open>in/a.jpg\<close>.
\<close>

theorem readImage_name_removes_every_extension:
  "Base ''in/a.jpg.jpg'' = ''a.jpg.jpg'' \<and> Ext ''in/a.jpg.jpg'' = ''.jpg'' \<and>
   imageName ''in/a.jpg.jpg'' = ''a'' \<and> imageName ''in/a.jpg'' = ''a'' \<and>
   resizePath ''out'' (imageName ''in/a.jpg.jpg'') 50 = ''out/a_50.jpg''"
  by (simp add: imageName_def Base_def Ext_def Replace_def resizePath_def Join_def Clean_def
      clean_loop.simps is_sep_or_end_def Sprintf_name_def format_d_def digits.simps digit_char_def)

section \<open>The invariants hold in every reachable state\<close>

lemma length_filter_update:
  assumes "i < length xs"
  shows "length (filter P (xs[i := y])) + (if P (xs ! i) then 1 else 0) =
         length (filter P xs) + (if P y then 1 else 0)"
  using assms
proof (induction xs arbitrary: i)
  case Nil
  then show ?case by simp
next
  case (Cons x xs)
  then show ?case by (cases i) auto
qed

lemma sum_list_map_update:
  assumes "i < length xs"
  shows "sum_list (map f (xs[i := y])) + f (xs ! i) = sum_list (map f xs) + (f y :: nat)"
  using assms
proof (induction xs arbitrary: i)
  case Nil
  then show ?case by simp
next
  case (Cons x xs)
  then show ?case by (cases i) auto
qed

lemma inv_init: "inv c (init c)"
  by (simp add: inv_def inv_readers_def inv_images_def inv_tasks_def inv_files_def init_def
      ri_spawned_def ri_received_def rz_received_def done_readers_def done_tasks_def)

lemma step_main_cases:
  assumes "step_main s = Some s'"
  obtains "main_at s = M_Go1" "s' = s\<lparr>main_at := M_Go2, ri_at := RI_Spawn 0\<rparr>"
  | "main_at s = M_Go2" "s' = s\<lparr>main_at := M_Recv, rz_at := RZ_Range\<rparr>"
  | "main_at s = M_Recv" "allFinished s > 0"
    "s' = s\<lparr>main_at := M_Exit, allFinished := allFinished s - 1\<rparr>"
  using assms by (auto simp: step_main_def split: main_pc.splits if_splits)

lemma inv_step_main:
  assumes "inv c s" "step_main s = Some s'"
  shows "inv c s'"
  using assms(2)
proof (cases rule: step_main_cases)
  case 1
  with assms(1) show ?thesis
    by (auto simp: inv_def inv_readers_def inv_images_def inv_tasks_def inv_files_def
      ri_spawned_def ri_received_def rz_received_def done_readers_def done_tasks_def sent_by_def)
next
  case 2
  with assms(1) show ?thesis
    by (auto simp: inv_def inv_readers_def inv_images_def inv_tasks_def inv_files_def
      ri_spawned_def ri_received_def rz_received_def done_readers_def done_tasks_def sent_by_def)
next
  case 3
  with assms(1) show ?thesis
    by (auto simp: inv_def inv_readers_def inv_images_def inv_tasks_def inv_files_def
      ri_spawned_def ri_received_def rz_received_def done_readers_def done_tasks_def sent_by_def
      split: if_splits)
qed

lemmas inv_defs = inv_readers_def inv_images_def inv_tasks_def inv_files_def
      ri_spawned_def ri_received_def rz_received_def done_readers_def done_tasks_def sent_by_def

lemma inv_readers_frame:
  assumes "readers s' = readers s" "ri_at s' = ri_at s" "rfinished s' = rfinished s"
    "images_closed s' = images_closed s" "main_at s' = main_at s" "panicked s' = panicked s"
  shows "inv_readers c s' = inv_readers c s"
  using assms by (simp add: inv_readers_def ri_spawned_def ri_received_def done_readers_def)

lemma inv_images_frame:
  assumes "readers s' = readers s" "seen s' @ images s' = seen s @ images s"
  shows "inv_images c s' = inv_images c s"
  using assms by (simp add: inv_images_def sent_by_def)

lemma inv_tasks_frame:
  assumes "count s' = count s" "tasks s' = tasks s" "rz_at s' = rz_at s" "seen s' = seen s"
    "zfinished s' = zfinished s" "images_closed s' = images_closed s"
    "rz_at s = RZ_Done \<or> (\<exists>i. rz_at s = RZ_Wait i) \<Longrightarrow> images s' = images s"
    "main_at s' = main_at s" "allFinished s' = allFinished s"
  shows "inv_tasks c s' = inv_tasks c s"
proof -
  have "(case rz_at s' of
         RZ_Sizes i k \<Rightarrow>
           seen s' \<noteq> [] \<and> last (seen s') = i \<and> k \<le> length (sizes c) \<and>
           map task_key (tasks s') =
             List.product (butlast (seen s')) (sizes c) @ map (Pair i) (take k (sizes c))
       | RZ_Wait i \<Rightarrow>
           i \<le> count s' \<and> map task_key (tasks s') = List.product (seen s') (sizes c)
       | _ \<Rightarrow> map task_key (tasks s') = List.product (seen s') (sizes c)) =
       (case rz_at s of
         RZ_Sizes i k \<Rightarrow>
           seen s \<noteq> [] \<and> last (seen s) = i \<and> k \<le> length (sizes c) \<and>
           map task_key (tasks s) =
             List.product (butlast (seen s)) (sizes c) @ map (Pair i) (take k (sizes c))
       | RZ_Wait i \<Rightarrow>
           i \<le> count s \<and> map task_key (tasks s) = List.product (seen s) (sizes c)
       | _ \<Rightarrow> map task_key (tasks s) = List.product (seen s) (sizes c))"
    using assms by (simp split: rz_pc.splits)
  moreover have "rz_received s' = rz_received s" "done_tasks s' = done_tasks s"
    using assms by (simp_all add: rz_received_def done_tasks_def split: rz_pc.splits)
  ultimately show ?thesis
    unfolding inv_tasks_def using assms by auto
qed

lemma inv_files_frame:
  assumes "created s' = created s" "tasks s' = tasks s"
  shows "inv_files c s' = inv_files c s"
  using assms by (simp add: inv_files_def)

lemma inv_images_sent:
  "inv_images c s \<Longrightarrow> d \<in> set (seen s) \<union> set (images s) \<Longrightarrow> sent_by c s d"
  by (simp add: inv_images_def)

lemma step_readImages_cases:
  assumes "step_readImages c s = Some s'"
  obtains i where "ri_at s = RI_Spawn i" "i < length (files c)"
      "s' = s\<lparr>readers := (readers s)[i := Rd_Start], ri_at := RI_Spawn (i + 1)\<rparr>"
  | i where "ri_at s = RI_Spawn i" "\<not> i < length (files c)" "s' = s\<lparr>ri_at := RI_Wait 0\<rparr>"
  | i where "ri_at s = RI_Wait i" "i < length (files c)" "rfinished s > 0"
      "s' = s\<lparr>rfinished := rfinished s - 1, ri_at := RI_Wait (i + 1)\<rparr>"
  | i where "ri_at s = RI_Wait i" "\<not> i < length (files c)"
      "s' = s\<lparr>images_closed := True, ri_at := RI_Done\<rparr>"
  using assms by (auto simp: step_readImages_def split: ri_pc.splits if_splits)

lemma done_readers_update:
  assumes "i < length (readers s)"
  shows "done_readers (s\<lparr>readers := (readers s)[i := p]\<rparr>) + (if readers s ! i = Rd_Done then 1 else 0)
       = done_readers s + (if p = Rd_Done then 1 else 0)"
  using length_filter_update [OF assms, of "\<lambda>p. p = Rd_Done" p]
  by (simp add: done_readers_def)

lemma inv_readers_readImages:
  assumes "inv c s" "step_readImages c s = Some s'"
  shows "inv_readers c s'"
  using assms(2)
proof (cases rule: step_readImages_cases)
  case (1 i)
  from assms(1) have r: "inv_readers c s" by (simp add: inv_def)
  from r 1 have none: "readers s ! i = Rd_None"
    by (simp add: inv_readers_def ri_spawned_def)
  from r 1 have len: "i < length (readers s)" by (simp add: inv_readers_def)
  from length_filter_update [OF len, of "\<lambda>p. p = Rd_Done" Rd_Start] none
  have "length (filter (\<lambda>p. p = Rd_Done) ((readers s)[i := Rd_Start])) =
        length (filter (\<lambda>p. p = Rd_Done) (readers s))" by simp
  with r 1 show ?thesis
    by (auto simp: inv_readers_def ri_spawned_def ri_received_def done_readers_def nth_list_update)
next
  case (2 i)
  with assms(1) show ?thesis
    by (auto simp: inv_def inv_readers_def ri_spawned_def ri_received_def done_readers_def)
next
  case (3 i)
  with assms(1) show ?thesis
    by (auto simp: inv_def inv_readers_def ri_spawned_def ri_received_def done_readers_def)
next
  case (4 i)
  with assms(1) show ?thesis
    by (auto simp: inv_def inv_readers_def ri_spawned_def ri_received_def done_readers_def)
qed

lemma inv_images_readImages:
  assumes "inv c s" "step_readImages c s = Some s'"
  shows "inv_images c s'"
  using assms(2)
proof (cases rule: step_readImages_cases)
  case (1 i)
  from assms(1) have r: "inv_readers c s" and m: "inv_images c s" by (simp_all add: inv_def)
  from r 1 have none: "readers s ! i = Rd_None"
    by (simp add: inv_readers_def ri_spawned_def)
  from r 1 have len: "length (readers s) = length (files c)" by (simp add: inv_readers_def)
  have ne: "ref d \<noteq> i" if "d \<in> set (seen s) \<union> set (images s)" for d
    using inv_images_sent [OF m that] none by (auto simp: sent_by_def)
  from m 1 len ne show ?thesis
    by (auto simp: inv_images_def sent_by_def nth_list_update)
next
  case (2 i)
  with assms(1) show ?thesis
    by (simp add: inv_def inv_images_def sent_by_def)
next
  case (3 i)
  with assms(1) show ?thesis
    by (simp add: inv_def inv_images_def sent_by_def)
next
  case (4 i)
  with assms(1) show ?thesis
    by (simp add: inv_def inv_images_def sent_by_def)
qed

lemma inv_tasks_readImages:
  assumes "inv c s" "step_readImages c s = Some s'"
  shows "inv_tasks c s'"
proof -
  from assms(1) have r: "inv_readers c s" and t: "inv_tasks c s" by (simp_all add: inv_def)
  from assms(2) show ?thesis
  proof (cases rule: step_readImages_cases)
    case (1 i)
    then have "inv_tasks c s' = inv_tasks c s" by (intro inv_tasks_frame) simp_all
    with t show ?thesis by simp
  next
    case (2 i)
    then have "inv_tasks c s' = inv_tasks c s" by (intro inv_tasks_frame) simp_all
    with t show ?thesis by simp
  next
    case (3 i)
    then have "inv_tasks c s' = inv_tasks c s" by (intro inv_tasks_frame) simp_all
    with t show ?thesis by simp
  next
    case (4 i)
    with r have open_before: "\<not> images_closed s" by (simp add: inv_readers_def)
    with t have "rz_at s \<noteq> RZ_Done" "\<And>j. rz_at s \<noteq> RZ_Wait j"
      by (auto simp: inv_tasks_def)
    with t 4 show ?thesis
      by (auto simp: inv_tasks_def rz_received_def done_tasks_def split: rz_pc.splits)
  qed
qed

lemma inv_files_readImages:
  assumes "inv c s" "step_readImages c s = Some s'"
  shows "inv_files c s'"
proof -
  from assms(2) have "inv_files c s' = inv_files c s"
    by (cases rule: step_readImages_cases) (simp_all add: inv_files_def)
  with assms(1) show ?thesis by (simp add: inv_def)
qed

lemma done_readers_le: "done_readers s \<le> length (readers s)"
  by (simp add: done_readers_def)

lemma done_readers_less:
  assumes "i < length (readers s)" "readers s ! i \<noteq> Rd_Done"
  shows "done_readers s < length (readers s)"
proof -
  from assms have "readers s ! i \<in> set (readers s)" by simp
  with assms(2) show ?thesis
    unfolding done_readers_def by (intro length_filter_less [where x = "readers s ! i"]) simp_all
qed

lemma closed_all_done:
  assumes "inv_readers c s" "images_closed s" "i < length (files c)"
  shows "readers s ! i = Rd_Done"
proof (rule ccontr)
  assume "readers s ! i \<noteq> Rd_Done"
  with assms have "done_readers s < length (readers s)"
    by (intro done_readers_less [of i]) (simp_all add: inv_readers_def)
  with assms(1,2) show False
    by (auto simp: inv_readers_def ri_received_def)
qed

lemma step_readImage_cases:
  assumes "inv c s" "step_readImage c i s = Some s'"
  obtains "i < length (files c)" "readers s ! i = Rd_Start" "decode (cenv c) (files c ! i) = None"
      "s' = s\<lparr>readers := (readers s)[i := Rd_Defer], logged := logged s + 1\<rparr>"
  | im where "i < length (files c)" "readers s ! i = Rd_Start"
      "decode (cenv c) (files c ! i) = Some im"
      "s' = s\<lparr>readers := (readers s)[i := Rd_Send im]\<rparr>"
  | im where "i < length (files c)" "readers s ! i = Rd_Send im" "\<not> images_closed s"
      "length (images s) < gomaxprocs c"
      "s' = s\<lparr>images := images s @ [\<lparr>ref = i, img = im, name = imageName (files c ! i)\<rparr>],
                readers := (readers s)[i := Rd_Defer]\<rparr>"
  | "i < length (files c)" "readers s ! i = Rd_Defer" "rfinished s < gomaxprocs c"
      "s' = s\<lparr>rfinished := rfinished s + 1, readers := (readers s)[i := Rd_Done]\<rparr>"
proof -
  from assms(2) have i: "i < length (files c)" "i < length (readers s)"
    by (auto simp: step_readImage_def split: if_splits)
  have "\<not> images_closed s" if "readers s ! i = Rd_Send im" for im
    using closed_all_done [of c s i] assms(1) i that by (auto simp: inv_def)
  with assms(2) i that show ?thesis
    by (auto simp: step_readImage_def split: rd_pc.splits if_splits option.splits)
qed

lemma inv_readers_readImage:
  assumes "inv c s" "step_readImage c i s = Some s'"
  shows "inv_readers c s'"
proof -
  from assms(1) have r: "inv_readers c s" by (simp add: inv_def)
  then have len: "length (readers s) = length (files c)" by (simp add: inv_readers_def)
  from assms show ?thesis
  proof (cases rule: step_readImage_cases)
    case 1
    with len have "done_readers s' = done_readers s"
      using done_readers_update [of i s Rd_Defer] by (simp add: done_readers_def)
    with r 1 len show ?thesis
      by (auto simp: inv_readers_def ri_spawned_def ri_received_def nth_list_update)
  next
    case (2 im)
    with len have "done_readers s' = done_readers s"
      using done_readers_update [of i s "Rd_Send im"] by (simp add: done_readers_def)
    with r 2 len show ?thesis
      by (auto simp: inv_readers_def ri_spawned_def ri_received_def nth_list_update)
  next
    case (3 im)
    with len have "done_readers s' = done_readers s"
      using done_readers_update [of i s Rd_Defer] by (simp add: done_readers_def)
    with r 3 len show ?thesis
      by (auto simp: inv_readers_def ri_spawned_def ri_received_def nth_list_update)
  next
    case 4
    with len have "done_readers s' = done_readers s + 1"
      using done_readers_update [of i s Rd_Done] by (simp add: done_readers_def)
    with r 4 len show ?thesis
      by (auto simp: inv_readers_def ri_spawned_def ri_received_def nth_list_update)
  qed
qed

lemma inv_images_readImage:
  assumes "inv c s" "step_readImage c i s = Some s'"
  shows "inv_images c s'"
proof -
  from assms(1) have r: "inv_readers c s" and m: "inv_images c s" by (simp_all add: inv_def)
  then have len: "length (readers s) = length (files c)" by (simp add: inv_readers_def)
  from assms show ?thesis
  proof (cases rule: step_readImage_cases)
    case 1
    have ne: "ref d \<noteq> i" if "d \<in> set (seen s) \<union> set (images s)" for d
      using inv_images_sent [OF m that] 1 by (auto simp: sent_by_def)
    from m 1 len ne show ?thesis
      by (auto simp: inv_images_def sent_by_def nth_list_update)
  next
    case (2 im)
    have ne: "ref d \<noteq> i" if "d \<in> set (seen s) \<union> set (images s)" for d
      using inv_images_sent [OF m that] 2 by (auto simp: sent_by_def)
    from m 2 len ne show ?thesis
      by (auto simp: inv_images_def sent_by_def nth_list_update)
  next
    case (3 im)
    have ne: "ref d \<noteq> i" if "d \<in> set (seen s) \<union> set (images s)" for d
      using inv_images_sent [OF m that] 3 by (auto simp: sent_by_def)
    from m 3 have dec: "decode (cenv c) (files c ! i) = Some im"
      by (simp add: inv_images_def)
    from m 3 len ne dec show ?thesis
      by (auto simp: inv_images_def sent_by_def nth_list_update)
  next
    case 4
    from m 4 len show ?thesis
      by (auto simp: inv_images_def sent_by_def nth_list_update)
  qed
qed

lemma inv_tasks_readImage:
  assumes "inv c s" "step_readImage c i s = Some s'"
  shows "inv_tasks c s'"
proof -
  from assms(1) have r: "inv_readers c s" and t: "inv_tasks c s" by (simp_all add: inv_def)
  from assms show ?thesis
  proof (cases rule: step_readImage_cases)
    case 1
    then have "inv_tasks c s' = inv_tasks c s" by (intro inv_tasks_frame) simp_all
    with t show ?thesis by simp
  next
    case (2 im)
    then have "inv_tasks c s' = inv_tasks c s" by (intro inv_tasks_frame) simp_all
    with t show ?thesis by simp
  next
    case (3 im)
    with t have "\<not> (rz_at s = RZ_Done \<or> (\<exists>j. rz_at s = RZ_Wait j))"
      by (auto simp: inv_tasks_def)
    with 3 have "inv_tasks c s' = inv_tasks c s" by (intro inv_tasks_frame) simp_all
    with t show ?thesis by simp
  next
    case 4
    then have "inv_tasks c s' = inv_tasks c s" by (intro inv_tasks_frame) simp_all
    with t show ?thesis by simp
  qed
qed

lemma inv_files_readImage:
  assumes "inv c s" "step_readImage c i s = Some s'"
  shows "inv_files c s'"
proof -
  from assms have "inv_files c s' = inv_files c s"
    by (cases rule: step_readImage_cases) (simp_all add: inv_files_def)
  with assms(1) show ?thesis by (simp add: inv_def)
qed

lemma product_snoc: "List.product (xs @ [x]) ys = List.product xs ys @ map (Pair x) ys"
  by (induction xs) simp_all

lemma step_resizeImages_cases:
  assumes "step_resizeImages c s = Some s'"
  obtains i rest where "rz_at s = RZ_Range" "images s = i # rest"
      "s' = s\<lparr>images := rest, seen := seen s @ [i], rz_at := RZ_Sizes i 0\<rparr>"
  | "rz_at s = RZ_Range" "images s = []" "images_closed s" "s' = s\<lparr>rz_at := RZ_Wait 0\<rparr>"
  | i k where "rz_at s = RZ_Sizes i k" "k < length (sizes c)"
      "s' = s\<lparr>count := count s + 1,
                tasks := tasks s @ [\<lparr>t_img = i, t_size = sizes c ! k, t_pc = Rs_Start\<rparr>],
                rz_at := RZ_Sizes i (k + 1)\<rparr>"
  | i k where "rz_at s = RZ_Sizes i k" "\<not> k < length (sizes c)" "s' = s\<lparr>rz_at := RZ_Range\<rparr>"
  | i where "rz_at s = RZ_Wait i" "i < count s" "zfinished s > 0"
      "s' = s\<lparr>zfinished := zfinished s - 1, rz_at := RZ_Wait (i + 1)\<rparr>"
  | i where "rz_at s = RZ_Wait i" "\<not> i < count s" "allFinished s < gomaxprocs c"
      "s' = s\<lparr>allFinished := allFinished s + 1, rz_at := RZ_Done\<rparr>"
  using assms
  by (auto simp: step_resizeImages_def split: rz_pc.splits if_splits list.splits)

lemma inv_readers_resizeImages:
  assumes "inv c s" "step_resizeImages c s = Some s'"
  shows "inv_readers c s'"
proof -
  from assms(2) have "inv_readers c s' = inv_readers c s"
    by (cases rule: step_resizeImages_cases) (rule inv_readers_frame; simp)+
  with assms(1) show ?thesis by (simp add: inv_def)
qed

lemma inv_images_resizeImages:
  assumes "inv c s" "step_resizeImages c s = Some s'"
  shows "inv_images c s'"
proof -
  from assms(2) have "inv_images c s' = inv_images c s"
    by (cases rule: step_resizeImages_cases) (rule inv_images_frame; simp)+
  with assms(1) show ?thesis by (simp add: inv_def)
qed

lemma inv_tasks_resizeImages:
  assumes "inv c s" "step_resizeImages c s = Some s'"
  shows "inv_tasks c s'"
proof -
  from assms(1) have t: "inv_tasks c s" by (simp add: inv_def)
  from assms(2) show ?thesis
  proof (cases rule: step_resizeImages_cases)
    case (1 i rest)
    with t show ?thesis
      by (auto simp: inv_tasks_def rz_received_def done_tasks_def)
  next
    case 2
    with t show ?thesis
      by (auto simp: inv_tasks_def rz_received_def done_tasks_def)
  next
    case (3 i k)
    with t show ?thesis
      by (auto simp: inv_tasks_def rz_received_def done_tasks_def task_key_def
          take_Suc_conv_app_nth)
  next
    case (4 i k)
    with t have k: "k = length (sizes c)" and ne: "seen s \<noteq> []" and l: "last (seen s) = i"
      by (auto simp: inv_tasks_def)
    from t 4 k have "map task_key (tasks s) =
        List.product (butlast (seen s)) (sizes c) @ map (Pair i) (sizes c)"
      by (simp add: inv_tasks_def)
    also have "\<dots> = List.product (butlast (seen s) @ [last (seen s)]) (sizes c)"
      by (simp add: product_snoc l)
    also have "\<dots> = List.product (seen s) (sizes c)"
      using ne by simp
    finally have "map task_key (tasks s) = List.product (seen s) (sizes c)" .
    with t 4 show ?thesis
      by (simp add: inv_tasks_def rz_received_def done_tasks_def)
  next
    case (5 i)
    with t show ?thesis
      by (auto simp: inv_tasks_def rz_received_def done_tasks_def)
  next
    case (6 i)
    with t show ?thesis
      by (auto simp: inv_tasks_def rz_received_def done_tasks_def)
  qed
qed

lemma inv_files_resizeImages:
  assumes "inv c s" "step_resizeImages c s = Some s'"
  shows "inv_files c s'"
proof -
  from assms(2) have "inv_files c s' = inv_files c s"
    by (cases rule: step_resizeImages_cases) (simp_all add: inv_files_def was_created_def)
  with assms(1) show ?thesis by (simp add: inv_def)
qed

lemma filter_update_same:
  assumes "k < length ts" "P y = P (ts ! k)" "g y = g (ts ! k)"
  shows "map g (filter P (ts[k := y])) = map g (filter P ts)"
  using assms
proof (induction ts arbitrary: k)
  case Nil
  then show ?case by simp
next
  case (Cons t ts)
  then show ?case by (cases k) auto
qed

lemma filter_update_new:
  assumes "k < length ts" "\<not> P (ts ! k)" "P y"
  shows "set (map g (filter P (ts[k := y]))) = insert (g y) (set (map g (filter P ts)))"
  using assms
proof (induction ts arbitrary: k)
  case Nil
  then show ?case by simp
next
  case (Cons t ts)
  then show ?case by (cases k) auto
qed

lemma map_update_same:
  assumes "k < length ts" "g y = g (ts ! k)"
  shows "map g (ts[k := y]) = map g ts"
  using assms by (simp add: map_update list_update_same_conv)

lemma done_tasks_update:
  assumes "k < length (tasks s)"
  shows "length (filter (\<lambda>t. t_pc t = Rs_Done) ((tasks s)[k := t])) +
           (if t_pc (tasks s ! k) = Rs_Done then 1 else 0)
       = done_tasks s + (if t_pc t = Rs_Done then 1 else 0)"
  using length_filter_update [OF assms, of "\<lambda>t. t_pc t = Rs_Done" t]
  by (simp add: done_tasks_def)

lemma step_resizeImage_cases:
  assumes "step_resizeImage c k s = Some s'"
  obtains "k < length (tasks s)" "t_pc (tasks s ! k) = Rs_Start"
      "create_ok (cenv c) (path_of c (tasks s ! k))"
      "s' = s\<lparr>created := created s @ [path_of c (tasks s ! k)],
                tasks := (tasks s)[k := (tasks s ! k)\<lparr>t_pc := Rs_Created\<rparr>]\<rparr>"
  | "k < length (tasks s)" "t_pc (tasks s ! k) = Rs_Start"
      "\<not> create_ok (cenv c) (path_of c (tasks s ! k))"
      "s' = s\<lparr>logged := logged s + 1,
                tasks := (tasks s)[k := (tasks s ! k)\<lparr>t_pc := Rs_Defer\<rparr>]\<rparr>"
  | "k < length (tasks s)" "t_pc (tasks s ! k) = Rs_Created"
      "encode_ok (cenv c) (img (t_img (tasks s ! k))) (t_size (tasks s ! k))"
      "s' = s\<lparr>encoded := encoded s @ [path_of c (tasks s ! k)],
                tasks := (tasks s)[k := (tasks s ! k)\<lparr>t_pc := Rs_Defer\<rparr>]\<rparr>"
  | "k < length (tasks s)" "t_pc (tasks s ! k) = Rs_Created"
      "\<not> encode_ok (cenv c) (img (t_img (tasks s ! k))) (t_size (tasks s ! k))"
      "s' = s\<lparr>logged := logged s + 1,
                tasks := (tasks s)[k := (tasks s ! k)\<lparr>t_pc := Rs_Defer\<rparr>]\<rparr>"
  | "k < length (tasks s)" "t_pc (tasks s ! k) = Rs_Defer" "zfinished s < gomaxprocs c"
      "s' = s\<lparr>zfinished := zfinished s + 1,
                tasks := (tasks s)[k := (tasks s ! k)\<lparr>t_pc := Rs_Done\<rparr>]\<rparr>"
  using assms
  by (auto simp: step_resizeImage_def path_of_def Let_def split: rs_pc.splits if_splits)

lemma inv_readers_resizeImage:
  assumes "inv c s" "step_resizeImage c k s = Some s'"
  shows "inv_readers c s'"
proof -
  from assms(2) have "inv_readers c s' = inv_readers c s"
    by (cases rule: step_resizeImage_cases) (rule inv_readers_frame; simp)+
  with assms(1) show ?thesis by (simp add: inv_def)
qed

lemma inv_images_resizeImage:
  assumes "inv c s" "step_resizeImage c k s = Some s'"
  shows "inv_images c s'"
proof -
  from assms(2) have "inv_images c s' = inv_images c s"
    by (cases rule: step_resizeImage_cases) (rule inv_images_frame; simp)+
  with assms(1) show ?thesis by (simp add: inv_def)
qed

lemma inv_tasks_update:
  assumes t: "inv_tasks c s" and k: "k < length (tasks s)"
    and s': "tasks s' = (tasks s)[k := (tasks s ! k)\<lparr>t_pc := p\<rparr>]"
       "count s' = count s" "rz_at s' = rz_at s" "seen s' = seen s"
       "images_closed s' = images_closed s" "images s' = images s"
       "main_at s' = main_at s" "allFinished s' = allFinished s"
    and fin: "zfinished s' + (if t_pc (tasks s ! k) = Rs_Done then 1 else 0) =
              zfinished s + (if p = Rs_Done then 1 else 0)"
    and nd: "t_pc (tasks s ! k) \<noteq> Rs_Done"
  shows "inv_tasks c s'"
proof -
  have keys: "map task_key (tasks s') = map task_key (tasks s)"
    using k s'(1) by (simp add: map_update_same task_key_def)
  have len: "length (tasks s') = length (tasks s)" using s'(1) by simp
  from done_tasks_update [OF k, of "(tasks s ! k)\<lparr>t_pc := p\<rparr>"] s'(1)
  have d: "done_tasks s' + (if t_pc (tasks s ! k) = Rs_Done then 1 else 0) =
           done_tasks s + (if p = Rs_Done then 1 else 0)"
    by (simp add: done_tasks_def)
  have r: "rz_received s' = rz_received s"
    using s' by (simp add: rz_received_def split: rz_pc.splits)
  from t have "rz_received s + zfinished s = done_tasks s" by (simp add: inv_tasks_def)
  with d fin nd r have acc: "rz_received s' + zfinished s' = done_tasks s'"
    by (simp split: if_splits)
  from t keys len s' acc show ?thesis
    unfolding inv_tasks_def by (simp split: rz_pc.splits)
qed

lemma inv_tasks_resizeImage:
  assumes "inv c s" "step_resizeImage c k s = Some s'"
  shows "inv_tasks c s'"
proof -
  from assms(1) have t: "inv_tasks c s" by (simp add: inv_def)
  from assms(2) show ?thesis
  proof (cases rule: step_resizeImage_cases)
    case 1
    then show ?thesis by (intro inv_tasks_update [OF t, of k s' Rs_Created]) simp_all
  next
    case 2
    then show ?thesis by (intro inv_tasks_update [OF t, of k s' Rs_Defer]) simp_all
  next
    case 3
    then show ?thesis by (intro inv_tasks_update [OF t, of k s' Rs_Defer]) simp_all
  next
    case 4
    then show ?thesis by (intro inv_tasks_update [OF t, of k s' Rs_Defer]) simp_all
  next
    case 5
    then show ?thesis by (intro inv_tasks_update [OF t, of k s' Rs_Done]) simp_all
  qed
qed

lemma inv_files_resizeImage:
  assumes "inv c s" "step_resizeImage c k s = Some s'"
  shows "inv_files c s'"
proof -
  from assms(1) have f: "inv_files c s" by (simp add: inv_def)
  have p: "path_of c (t\<lparr>t_pc := q\<rparr>) = path_of c t" for t :: "'a task" and q
    by (simp add: path_of_def)
  from assms(2) show ?thesis
  proof (cases rule: step_resizeImage_cases)
    case 1
    then have "set (map (path_of c) (filter (was_created c) ((tasks s)[k := (tasks s ! k)\<lparr>t_pc := Rs_Created\<rparr>])))
        = insert (path_of c ((tasks s ! k)\<lparr>t_pc := Rs_Created\<rparr>))
            (set (map (path_of c) (filter (was_created c) (tasks s))))"
      by (intro filter_update_new) (simp_all add: was_created_def p)
    with f 1 show ?thesis by (simp add: inv_files_def p)
  next
    case 2
    then have "map (path_of c) (filter (was_created c) ((tasks s)[k := (tasks s ! k)\<lparr>t_pc := Rs_Defer\<rparr>]))
        = map (path_of c) (filter (was_created c) (tasks s))"
      by (intro filter_update_same) (simp_all add: was_created_def p)
    with f 2 show ?thesis by (simp add: inv_files_def)
  next
    case 3
    then have "map (path_of c) (filter (was_created c) ((tasks s)[k := (tasks s ! k)\<lparr>t_pc := Rs_Defer\<rparr>]))
        = map (path_of c) (filter (was_created c) (tasks s))"
      by (intro filter_update_same) (simp_all add: was_created_def p)
    with f 3 show ?thesis by (simp add: inv_files_def)
  next
    case 4
    then have "map (path_of c) (filter (was_created c) ((tasks s)[k := (tasks s ! k)\<lparr>t_pc := Rs_Defer\<rparr>]))
        = map (path_of c) (filter (was_created c) (tasks s))"
      by (intro filter_update_same) (simp_all add: was_created_def p)
    with f 4 show ?thesis by (simp add: inv_files_def)
  next
    case 5
    then have "map (path_of c) (filter (was_created c) ((tasks s)[k := (tasks s ! k)\<lparr>t_pc := Rs_Done\<rparr>]))
        = map (path_of c) (filter (was_created c) (tasks s))"
      by (intro filter_update_same) (simp_all add: was_created_def p)
    with f 5 show ?thesis by (simp add: inv_files_def)
  qed
qed

lemma inv_step:
  assumes "inv c s" "step c a s = Some s'"
  shows "inv c s'"
proof -
  from assms(2) have st: "step_of c a s = Some s'"
    by (simp add: step_def split: if_splits)
  show ?thesis
  proof (cases a)
    case Main
    with st assms(1) show ?thesis by (simp add: inv_step_main)
  next
    case ReadImages
    with st assms(1) show ?thesis
      unfolding inv_def [of c s']
      by (simp add: inv_readers_readImages inv_images_readImages inv_tasks_readImages
          inv_files_readImages)
  next
    case (ReadImage i)
    with st assms(1) show ?thesis
      unfolding inv_def [of c s']
      by (simp add: inv_readers_readImage inv_images_readImage inv_tasks_readImage
          inv_files_readImage)
  next
    case ResizeImages
    with st assms(1) show ?thesis
      unfolding inv_def [of c s']
      by (simp add: inv_readers_resizeImages inv_images_resizeImages inv_tasks_resizeImages
          inv_files_resizeImages)
  next
    case (ResizeImage k)
    with st assms(1) show ?thesis
      unfolding inv_def [of c s']
      by (simp add: inv_readers_resizeImage inv_images_resizeImage inv_tasks_resizeImage
          inv_files_resizeImage)
  qed
qed

lemma reachable_inv: "reachable c s \<Longrightarrow> inv c s"
  by (induction rule: reachable.induct) (simp_all add: inv_init inv_step)

section \<open>Runs and the states they reach\<close>

lemma run_reachable:
  assumes "reachable c s" "run c as s = Some s'"
  shows "reachable c s'"
  using assms
proof (induction as arbitrary: s)
  case Nil
  then show ?case by simp
next
  case (Cons a as)
  then obtain s1 where s1: "step c a s = Some s1" and r: "run c as s1 = Some s'"
    by (auto split: option.splits)
  from Cons.prems(1) s1 have "reachable c s1" by (rule reach_step)
  with r show ?case by (rule Cons.IH [rotated])
qed

lemmas path_eval =
  resizePath_def Join_def Clean_def clean_loop.simps is_sep_or_end_def Sprintf_name_def
  format_d_def digits.simps digit_char_def

lemmas name_eval = imageName_def Base_def Ext_def Replace_def

lemmas step_eval =
  step_def ended_def step_main_def step_readImages_def step_readImage_def
  step_resizeImages_def step_resizeImage_def init_def

lemma failing_run:
  "run failing_config failing_schedule (init failing_config) = Some failing_final"
  by (simp add: failing_config_def failing_schedule_def failing_final_def failing_env_def
      example_env_def step_eval path_eval name_eval)

section \<open>The order of events\<close>

lemma filter_all:
  assumes "length xs \<le> length (filter P xs)"
  shows "\<forall>x \<in> set xs. P x"
proof (rule ccontr)
  assume "\<not> (\<forall>x \<in> set xs. P x)"
  then obtain x where "x \<in> set xs" "\<not> P x" by blast
  then have "length (filter P xs) < length xs" by (rule length_filter_less)
  with assms show False by simp
qed

lemma done_all_tasks:
  assumes "inv_tasks c s" "rz_at s = RZ_Done"
  shows "\<forall>t \<in> set (tasks s). t_pc t = Rs_Done"
proof -
  from assms have "length (tasks s) \<le> done_tasks s"
    by (simp add: inv_tasks_def rz_received_def)
  then show ?thesis unfolding done_tasks_def by (rule filter_all)
qed

lemma task_img_seen:
  assumes "inv_tasks c s" "t \<in> set (tasks s)"
  shows "t_img t \<in> set (seen s)"
proof -
  from assms(2) have k: "task_key t \<in> set (map task_key (tasks s))" by simp
  have b: "set (butlast (seen s)) \<subseteq> set (seen s)"
    by (auto dest: in_set_butlastD)
  show ?thesis
  proof (cases "rz_at s")
    case (RZ_Sizes i j)
    with assms(1) have "map task_key (tasks s) =
        List.product (butlast (seen s)) (sizes c) @ map (Pair i) (take j (sizes c))"
      and "seen s \<noteq> []" and "last (seen s) = i"
      by (simp_all add: inv_tasks_def)
    with k b show ?thesis by (auto simp: task_key_def)
  next
    case RZ_None
    with assms(1) k show ?thesis by (auto simp: inv_tasks_def task_key_def)
  next
    case RZ_Range
    with assms(1) k show ?thesis by (auto simp: inv_tasks_def task_key_def)
  next
    case (RZ_Wait i)
    with assms(1) k show ?thesis by (auto simp: inv_tasks_def task_key_def)
  next
    case RZ_Done
    with assms(1) k show ?thesis by (auto simp: inv_tasks_def task_key_def)
  qed
qed

text \<open>
  C2: in every reachable state, (1) once \<^verbatim>\<open>resizeImages\<close> has sent the final signal,
  \<^verbatim>\<open>readImages\<close> has returned and every \<^verbatim>\<open>readImage\<close> and every \<^verbatim>\<open>resizeImage\<close> has
  reported; the signal is in the channel or received by main only then; (2) the
  image of every \<^verbatim>\<open>resizeImage\<close> started was decoded and sent by a \<^verbatim>\<open>readImage\<close>;
  (3) for a file that does not decode no image is in the channel and no
  \<^verbatim>\<open>resizeImage\<close> is started, and (4) the values \<^verbatim>\<open>readImages\<close> has received or
  will find in its channel are as many as the \<^verbatim>\<open>readImage\<close> goroutines that have
  returned, whether their file decoded or not.
\<close>

theorem pipeline_ordering:
  assumes "reachable c s"
  shows "(rz_at s = RZ_Done \<longrightarrow>
            ri_at s = RI_Done \<and> (\<forall>i < length (files c). readers s ! i = Rd_Done) \<and>
            (\<forall>t \<in> set (tasks s). t_pc t = Rs_Done)) \<and>
         (allFinished s > 0 \<or> main_at s = M_Exit \<longrightarrow> rz_at s = RZ_Done) \<and>
         (\<forall>t \<in> set (tasks s). sent_by c s (t_img t)) \<and>
         (\<forall>i < length (files c). decode (cenv c) (files c ! i) = None \<longrightarrow>
            (\<forall>d \<in> set (images s). ref d \<noteq> i) \<and> (\<forall>t \<in> set (tasks s). ref (t_img t) \<noteq> i)) \<and>
         ri_received c s + rfinished s = done_readers s"
proof -
  from assms have i: "inv c s" by (rule reachable_inv)
  then have r: "inv_readers c s" and m: "inv_images c s" and t: "inv_tasks c s"
    by (simp_all add: inv_def)
  have sent: "sent_by c s (t_img x)" if "x \<in> set (tasks s)" for x
    using inv_images_sent [OF m] task_img_seen [OF t that] by simp
  have one: "ri_at s = RI_Done \<and> (\<forall>i < length (files c). readers s ! i = Rd_Done) \<and>
            (\<forall>t \<in> set (tasks s). t_pc t = Rs_Done)" if d: "rz_at s = RZ_Done"
  proof -
    from t d have cl: "images_closed s" by (simp add: inv_tasks_def)
    with r have "ri_at s = RI_Done" by (simp add: inv_readers_def)
    moreover from cl have "\<forall>i < length (files c). readers s ! i = Rd_Done"
      using closed_all_done [OF r] by blast
    ultimately show ?thesis using done_all_tasks [OF t d] by blast
  qed
  have two: "rz_at s = RZ_Done" if "allFinished s > 0 \<or> main_at s = M_Exit"
    using t that by (auto simp: inv_tasks_def split: if_splits)
  have three: "(\<forall>d \<in> set (images s). ref d \<noteq> i) \<and> (\<forall>t \<in> set (tasks s). ref (t_img t) \<noteq> i)"
    if "decode (cenv c) (files c ! i) = None" for i
  proof -
    have "ref d \<noteq> i" if "sent_by c s d" for d
      using that \<open>decode (cenv c) (files c ! i) = None\<close> by (auto simp: sent_by_def)
    then show ?thesis using sent inv_images_sent [OF m] by blast
  qed
  from r have four: "ri_received c s + rfinished s = done_readers s"
    by (simp add: inv_readers_def)
  from one two three four sent show ?thesis by blast
qed

theorem pipeline_ordering_witness:
  "run failing_config failing_schedule (init failing_config) = Some failing_final \<and>
   rz_at failing_final = RZ_Done \<and> main_at failing_final = M_Exit \<and>
   readers failing_final = [Rd_Done, Rd_Done] \<and>
   map t_pc (tasks failing_final) = [Rs_Done, Rs_Done] \<and>
   decode (cenv failing_config) (files failing_config ! 1) = None \<and>
   map (\<lambda>t. ref (t_img t)) (tasks failing_final) = [0, 0] \<and>
   sent_by failing_config failing_final (t_img (tasks failing_final ! 0)) \<and>
   ri_received failing_config failing_final + rfinished failing_final = 2 \<and>
   done_readers failing_final = 2"
proof -
  have "reachable failing_config failing_final"
    using reach_init failing_run by (rule run_reachable)
  from pipeline_ordering [OF this] failing_run show ?thesis
    by (simp add: failing_final_def failing_config_def failing_env_def example_env_def
        sent_by_def ri_received_def done_readers_def name_eval)
qed

section \<open>No deadlock\<close>

lemma filter_not_all:
  assumes "length (filter P xs) < length xs"
  shows "\<exists>i < length xs. \<not> P (xs ! i)"
proof (rule ccontr)
  assume "\<not> (\<exists>i < length xs. \<not> P (xs ! i))"
  then have "\<forall>x \<in> set xs. P x" by (auto simp: in_set_conv_nth)
  then have "filter P xs = xs" by (simp add: filter_id_conv)
  with assms show False by simp
qed

lemma main_enabled:
  assumes "main_at s \<noteq> M_Exit" "main_at s = M_Recv \<Longrightarrow> allFinished s > 0"
  shows "\<exists>s'. step_main s = Some s'"
  using assms by (cases "main_at s") (simp_all add: step_main_def)

lemma readImages_enabled:
  assumes "ri_at s = RI_Spawn i \<or>
           ri_at s = RI_Wait i \<and> (i < length (files c) \<longrightarrow> rfinished s > 0)"
  shows "\<exists>s'. step_readImages c s = Some s'"
  using assms by (auto simp: step_readImages_def)

lemma readImage_enabled:
  assumes "i < length (readers s)" "i < length (files c)"
    "readers s ! i = Rd_Start \<or>
     (\<exists>im. readers s ! i = Rd_Send im) \<and> length (images s) < gomaxprocs c \<or>
     readers s ! i = Rd_Defer \<and> rfinished s < gomaxprocs c"
  shows "\<exists>s'. step_readImage c i s = Some s'"
  using assms by (auto simp: step_readImage_def split: option.splits)

lemma resizeImages_enabled:
  assumes "rz_at s = RZ_Range \<and> (images s = [] \<longrightarrow> images_closed s) \<or>
           (\<exists>i k. rz_at s = RZ_Sizes i k) \<or>
           rz_at s = RZ_Wait i \<and> i < count s \<and> zfinished s > 0 \<or>
           rz_at s = RZ_Wait i \<and> \<not> i < count s \<and> allFinished s < gomaxprocs c"
  shows "\<exists>s'. step_resizeImages c s = Some s'"
  using assms by (auto simp: step_resizeImages_def split: list.splits if_splits)

lemma resizeImage_enabled:
  assumes "k < length (tasks s)"
    "t_pc (tasks s ! k) = Rs_Start \<or> t_pc (tasks s ! k) = Rs_Created \<or>
     t_pc (tasks s ! k) = Rs_Defer \<and> zfinished s < gomaxprocs c"
  shows "\<exists>s'. step_resizeImage c k s = Some s'"
  using assms by (auto simp: step_resizeImage_def Let_def)

lemma can_step:
  assumes "\<not> ended s" "step_of c a s = Some s'"
  shows "\<exists>a s'. step c a s = Some s'"
  using assms unfolding step_def by auto

lemma readers_progress:
  assumes i: "inv c s" and ne: "\<not> ended s" and cap: "0 < gomaxprocs c"
    and w: "ri_at s = RI_Wait j" "j < length (files c)" "rfinished s = 0"
    and rz: "rz_at s \<noteq> RZ_None"
  shows "\<exists>a s'. step c a s = Some s'"
proof -
  from i have r: "inv_readers c s" and t: "inv_tasks c s" by (simp_all add: inv_def)
  from r w have len: "length (readers s) = length (files c)"
    and d: "done_readers s < length (readers s)"
    and op: "\<not> images_closed s"
    and sp: "\<forall>i < length (files c). readers s ! i \<noteq> Rd_None"
    by (simp_all add: inv_readers_def ri_received_def ri_spawned_def)
  from d obtain k where k: "k < length (readers s)" "readers s ! k \<noteq> Rd_Done"
    unfolding done_readers_def using filter_not_all by blast
  with sp len have nn: "readers s ! k \<noteq> Rd_None" by simp
  show ?thesis
  proof (cases "readers s ! k")
    case Rd_Start
    with k len readImage_enabled [of k s c] obtain s' where "step_of c (ReadImage k) s = Some s'"
      by auto
    with ne show ?thesis by (rule can_step)
  next
    case Rd_Defer
    with k len w cap readImage_enabled [of k s c]
    obtain s' where "step_of c (ReadImage k) s = Some s'" by auto
    with ne show ?thesis by (rule can_step)
  next
    case (Rd_Send im)
    show ?thesis
    proof (cases "length (images s) < gomaxprocs c")
      case True
      with Rd_Send k len readImage_enabled [of k s c]
      obtain s' where "step_of c (ReadImage k) s = Some s'" by auto
      with ne show ?thesis by (rule can_step)
    next
      case False
      with cap have im: "images s \<noteq> []" by auto
      with t have "rz_at s \<noteq> RZ_Done" "\<forall>i. rz_at s \<noteq> RZ_Wait i"
        by (auto simp: inv_tasks_def)
      with rz have "rz_at s = RZ_Range \<or> (\<exists>i k. rz_at s = RZ_Sizes i k)"
        by (cases "rz_at s") simp_all
      with im resizeImages_enabled [of s 0 c]
      obtain s' where "step_of c ResizeImages s = Some s'" by auto
      with ne show ?thesis by (rule can_step)
    qed
  qed (use k nn in simp_all)
qed

lemma tasks_progress:
  assumes i: "inv c s" and ne: "\<not> ended s" and cap: "0 < gomaxprocs c"
    and w: "rz_at s = RZ_Wait j" "j < count s" "zfinished s = 0"
  shows "\<exists>a s'. step c a s = Some s'"
proof -
  from i have t: "inv_tasks c s" by (simp add: inv_def)
  from t w have "done_tasks s < length (tasks s)"
    by (simp add: inv_tasks_def rz_received_def)
  then obtain k where k: "k < length (tasks s)" "t_pc (tasks s ! k) \<noteq> Rs_Done"
    unfolding done_tasks_def using filter_not_all by blast
  then have "t_pc (tasks s ! k) = Rs_Start \<or> t_pc (tasks s ! k) = Rs_Created \<or>
     t_pc (tasks s ! k) = Rs_Defer \<and> zfinished s < gomaxprocs c"
    using w cap by (cases "t_pc (tasks s ! k)") simp_all
  with k resizeImage_enabled [of k s c]
  obtain s' where "step_of c (ResizeImage k) s = Some s'" by auto
  with ne show ?thesis by (rule can_step)
qed

lemma progress:
  assumes i: "inv c s" and ne: "\<not> ended s" and cap: "0 < gomaxprocs c"
  shows "\<exists>a s'. step c a s = Some s'"
proof -
  from i have r: "inv_readers c s" and t: "inv_tasks c s" by (simp_all add: inv_def)
  from ne have nx: "main_at s \<noteq> M_Exit" by (simp add: ended_def)
  show ?thesis
  proof (cases "main_at s = M_Recv")
    case False
    with nx main_enabled [of s] obtain s' where "step_of c Main s = Some s'" by auto
    with ne show ?thesis by (rule can_step)
  next
    case True
    with r t have ri: "ri_at s \<noteq> RI_None" and rz: "rz_at s \<noteq> RZ_None"
      by (simp_all add: inv_readers_def inv_tasks_def)
    show ?thesis
    proof (cases "ri_at s")
      case RI_None
      with ri show ?thesis by simp
    next
      case (RI_Spawn j)
      with readImages_enabled [of s j c] obtain s' where "step_of c ReadImages s = Some s'"
        by auto
      with ne show ?thesis by (rule can_step)
    next
      case (RI_Wait j)
      show ?thesis
      proof (cases "j < length (files c) \<and> rfinished s = 0")
        case True
        with i ne cap RI_Wait rz show ?thesis by (intro readers_progress [of c s j]) simp_all
      next
        case False
        with RI_Wait readImages_enabled [of s j c]
        obtain s' where "step_of c ReadImages s = Some s'" by auto
        with ne show ?thesis by (rule can_step)
      qed
    next
      case RI_Done
      with r have cl: "images_closed s" by (simp add: inv_readers_def)
      show ?thesis
      proof (cases "rz_at s")
        case RZ_None
        with rz show ?thesis by simp
      next
        case RZ_Range
        with cl resizeImages_enabled [of s 0 c]
        obtain s' where "step_of c ResizeImages s = Some s'" by auto
        with ne show ?thesis by (rule can_step)
      next
        case (RZ_Sizes x k)
        with resizeImages_enabled [of s 0 c]
        obtain s' where "step_of c ResizeImages s = Some s'" by auto
        with ne show ?thesis by (rule can_step)
      next
        case (RZ_Wait j)
        show ?thesis
        proof (cases "j < count s \<and> zfinished s = 0")
          case True
          with i ne cap RZ_Wait show ?thesis by (intro tasks_progress [of c s j]) simp_all
        next
          case False
          from t RZ_Wait have "allFinished s = 0" by (simp add: inv_tasks_def)
          with False cap have "j < count s \<and> zfinished s > 0 \<or>
              \<not> j < count s \<and> allFinished s < gomaxprocs c"
            by auto
          with RZ_Wait have "\<exists>s'. step_resizeImages c s = Some s'"
            by (intro resizeImages_enabled [of s j c]) blast
          then obtain s' where "step_of c ResizeImages s = Some s'" by auto
          with ne show ?thesis by (rule can_step)
        qed
      next
        case RZ_Done
        with t nx have "allFinished s > 0" by (simp add: inv_tasks_def)
        with nx main_enabled [of s] obtain s' where "step_of c Main s = Some s'" by auto
        with ne show ?thesis by (rule can_step)
      qed
    qed
  qed
qed

section \<open>Every step lowers the bound\<close>

lemma left_main:
  assumes "inv c s" "step_main s = Some s'"
  shows "steps_left c s' < steps_left c s"
proof -
  from assms(1) have r: "inv_readers c s" and t: "inv_tasks c s" by (simp_all add: inv_def)
  from assms(2) show ?thesis
  proof (cases rule: step_main_cases)
    case 1
    with r have "ri_at s = RI_None" by (simp add: inv_readers_def)
    with 1 show ?thesis by (simp add: steps_left_def)
  next
    case 2
    with t have "rz_at s = RZ_None" by (simp add: inv_tasks_def)
    with 2 show ?thesis by (simp add: steps_left_def)
  next
    case 3
    then show ?thesis by (simp add: steps_left_def)
  qed
qed

lemma left_readImages:
  assumes "inv c s" "step_readImages c s = Some s'"
  shows "steps_left c s' < steps_left c s"
  using assms(2)
proof (cases rule: step_readImages_cases)
  case (1 i)
  from assms(1) have r: "inv_readers c s" by (simp add: inv_def)
  from r 1 have none: "readers s ! i = Rd_None" and len: "i < length (readers s)"
    by (simp_all add: inv_readers_def ri_spawned_def)
  from sum_list_map_update [OF len, of "rd_left (image_cost c)" Rd_Start] none
  have "sum_list (map (rd_left (image_cost c)) ((readers s)[i := Rd_Start])) =
        sum_list (map (rd_left (image_cost c)) (readers s))" by simp
  with 1 show ?thesis by (simp add: steps_left_def)
next
  case (2 i)
  then show ?thesis by (simp add: steps_left_def)
next
  case (3 i)
  then show ?thesis by (simp add: steps_left_def)
next
  case (4 i)
  then show ?thesis by (simp add: steps_left_def)
qed

lemma left_readImage:
  assumes "inv c s" "step_readImage c i s = Some s'"
  shows "steps_left c s' < steps_left c s"
proof -
  from assms(1) have r: "inv_readers c s" by (simp add: inv_def)
  then have len: "length (readers s) = length (files c)" by (simp add: inv_readers_def)
  note u = sum_list_map_update [of i "readers s" "rd_left (image_cost c)"]
  from assms show ?thesis
  proof (cases rule: step_readImage_cases)
    case 1
    with len u [of Rd_Defer] show ?thesis by (simp add: steps_left_def)
  next
    case (2 im)
    with len u [of "Rd_Send im"] show ?thesis by (simp add: steps_left_def)
  next
    case (3 im)
    with len u [of Rd_Defer] show ?thesis by (simp add: steps_left_def)
  next
    case 4
    with len u [of Rd_Done] show ?thesis by (simp add: steps_left_def)
  qed
qed

lemma left_resizeImages:
  assumes "step_resizeImages c s = Some s'"
  shows "steps_left c s' < steps_left c s"
  using assms
proof (cases rule: step_resizeImages_cases)
  case (1 i rest)
  then show ?thesis by (simp add: steps_left_def image_cost_def)
next
  case 2
  then show ?thesis by (simp add: steps_left_def)
next
  case (3 i k)
  then have "5 * (length (sizes c) - k) = 5 * (length (sizes c) - Suc k) + 5" by simp
  with 3 show ?thesis by (simp add: steps_left_def)
next
  case (4 i k)
  then show ?thesis by (simp add: steps_left_def)
next
  case (5 i)
  then show ?thesis by (simp add: steps_left_def)
next
  case (6 i)
  then show ?thesis by (simp add: steps_left_def)
qed

lemma left_resizeImage:
  assumes "step_resizeImage c k s = Some s'"
  shows "steps_left c s' < steps_left c s"
proof -
  note u = sum_list_map_update [of k "tasks s" "\<lambda>t. rs_left (t_pc t)"]
  from assms show ?thesis
  proof (cases rule: step_resizeImage_cases)
    case 1
    with u [of "(tasks s ! k)\<lparr>t_pc := Rs_Created\<rparr>"] show ?thesis by (simp add: steps_left_def)
  next
    case 2
    with u [of "(tasks s ! k)\<lparr>t_pc := Rs_Defer\<rparr>"] show ?thesis by (simp add: steps_left_def)
  next
    case 3
    with u [of "(tasks s ! k)\<lparr>t_pc := Rs_Defer\<rparr>"] show ?thesis by (simp add: steps_left_def)
  next
    case 4
    with u [of "(tasks s ! k)\<lparr>t_pc := Rs_Defer\<rparr>"] show ?thesis by (simp add: steps_left_def)
  next
    case 5
    with u [of "(tasks s ! k)\<lparr>t_pc := Rs_Done\<rparr>"] show ?thesis by (simp add: steps_left_def)
  qed
qed

lemma steps_left_decreases:
  assumes "inv c s" "step c a s = Some s'"
  shows "steps_left c s' < steps_left c s"
proof -
  from assms(2) have st: "step_of c a s = Some s'"
    by (simp add: step_def split: if_splits)
  with assms(1) show ?thesis
    by (cases a)
       (simp_all add: left_main left_readImages left_readImage left_resizeImages left_resizeImage)
qed

section \<open>The process ends with status 0\<close>

lemma run_bound:
  assumes "inv c s" "run c as s = Some s'"
  shows "length as + steps_left c s' \<le> steps_left c s"
  using assms
proof (induction as arbitrary: s)
  case Nil
  then show ?case by simp
next
  case (Cons a as)
  then obtain s1 where s1: "step c a s = Some s1" and r: "run c as s1 = Some s'"
    by (auto split: option.splits)
  from Cons.prems(1) s1 have "inv c s1" by (rule inv_step)
  from Cons.IH [OF this r] steps_left_decreases [OF Cons.prems(1) s1]
  show ?case by simp
qed

lemma ended_status:
  assumes "inv c s" "ended s"
  shows "exit_status s = Some 0" "rz_at s = RZ_Done"
  using assms by (auto simp: inv_def inv_readers_def inv_tasks_def ended_def exit_status_def)

lemma eventually_exits:
  assumes "inv c s" "0 < gomaxprocs c"
  shows "\<exists>as s'. run c as s = Some s' \<and> exit_status s' = Some 0"
  using assms(1)
proof (induction "steps_left c s" arbitrary: s rule: less_induct)
  case less
  show ?case
  proof (cases "ended s")
    case True
    with less.prems have "run c [] s = Some s \<and> exit_status s = Some 0"
      by (simp add: ended_status)
    then show ?thesis by blast
  next
    case False
    with less.prems assms(2) obtain a s1 where s1: "step c a s = Some s1"
      using progress by blast
    from less.prems s1 have i1: "inv c s1" by (rule inv_step)
    from less.prems s1 have "steps_left c s1 < steps_left c s" by (rule steps_left_decreases)
    from less.hyps [OF this i1] obtain as s' where
      "run c as s1 = Some s'" "exit_status s' = Some 0" by blast
    with s1 have "run c (a # as) s = Some s' \<and> exit_status s' = Some 0" by simp
    then show ?thesis by blast
  qed
qed

lemma step_init_config: "step c a s = Some s' \<Longrightarrow> \<not> ended s"
  by (simp add: step_def split: if_splits)

text \<open>
  C3: when the setup has passed and the pipeline runs, then in every reachable state
  the process has not ended, or it has ended with status 0 and after the final
  signal; as long as it has not ended some goroutine can take a step, and every step
  lowers the bound \<open>steps_left\<close>: the process cannot block and cannot run for ever, so
  it ends, with status 0. Nothing is assumed about which files decode and which can
  be created or encoded.
\<close>

theorem pipeline_exits_zero:
  assumes "pipeline_of e n fl = Some c" "0 < n" "reachable c s"
  shows "(exit_status s = None \<or> exit_status s = Some 0) \<and>
         (exit_status s = Some 0 \<longrightarrow> rz_at s = RZ_Done \<and> main_at s = M_Exit) \<and>
         (exit_status s = None \<longrightarrow> (\<exists>a s'. step c a s = Some s')) \<and>
         (\<forall>a s'. step c a s = Some s' \<longrightarrow> steps_left c s' < steps_left c s) \<and>
         (\<forall>as s'. run c as s = Some s' \<longrightarrow> length as \<le> steps_left c s) \<and>
         (\<exists>as s'. run c as s = Some s' \<and> exit_status s' = Some 0)"
proof -
  from assms(1) have n: "gomaxprocs c = n"
    by (auto simp: pipeline_of_def split: sum.splits)
  from assms(3) have i: "inv c s" by (rule reachable_inv)
  then have np: "\<not> panicked s" by (simp add: inv_def inv_readers_def)
  then have a: "exit_status s = None \<or> exit_status s = Some 0"
    by (simp add: exit_status_def)
  have b: "rz_at s = RZ_Done \<and> main_at s = M_Exit" if "exit_status s = Some 0"
    using that i by (auto simp: exit_status_def inv_def inv_tasks_def split: if_splits)
  have c: "\<exists>a s'. step c a s = Some s'" if "exit_status s = None"
  proof -
    from that have "\<not> ended s" by (auto simp: exit_status_def ended_def split: if_splits)
    with i n assms(2) show ?thesis by (intro progress) simp_all
  qed
  have d: "steps_left c s' < steps_left c s" if "step c a s = Some s'" for a s'
    using i that by (rule steps_left_decreases)
  have e: "length as \<le> steps_left c s" if "run c as s = Some s'" for as s'
    using run_bound [OF i that] by simp
  from i n assms(2) have "\<exists>as s'. run c as s = Some s' \<and> exit_status s' = Some 0"
    by (intro eventually_exits) simp_all
  with a b c d e show ?thesis by blast
qed

lemmas glob_eval =
  Glob.simps hasClass_def hasMeta_def Split_def cleanGlobPath_def glob_def

theorem pipeline_exits_zero_witness:
  "pipeline_of failing_env 1 (example_flags ''50,100'') = Some failing_config \<and>
   run failing_config failing_schedule (init failing_config) = Some failing_final \<and>
   exit_status failing_final = Some 0 \<and> logged failing_final = 2 \<and>
   length failing_schedule \<le> steps_left failing_config (init failing_config) \<and>
   exit_status (init failing_config) = None"
proof -
  have p: "pipeline_of failing_env 1 (example_flags ''50,100'') = Some failing_config"
    by (simp add: pipeline_of_def failing_config_def failing_env_def setup_eval parse_eval
        glob_eval path_eval)
  have r: "reachable failing_config (init failing_config)" by (rule reach_init)
  from pipeline_exits_zero [OF p zero_less_one r] failing_run
  have "length failing_schedule \<le> steps_left failing_config (init failing_config)"
    by blast
  moreover have "exit_status failing_final = Some 0" "logged failing_final = 2"
    by (simp_all add: failing_final_def exit_status_def)
  moreover have "exit_status (init failing_config) = None"
    by (simp add: init_def exit_status_def)
  ultimately show ?thesis using p failing_run by blast
qed

end
